theory Spec2Isabelle
  imports Main "HOL-Library.Sublist" "HOL-Library.Multiset"
begin

section \<open>The log analyzer of docker/analyze.py\<close>

text \<open>
  The development follows \<^verbatim>\<open>RagFlowLogAnalyzer.parse_timestamp\<close> and
  \<^verbatim>\<open>RagFlowLogAnalyzer.analyze_logfile\<close>. A Python \<^verbatim>\<open>str\<close> is a
  \<^typ>\<open>string\<close>; a \<^typ>\<open>char\<close> stands for one code point below 256, and
  lengths and slices count code points as Python does. Console output is not modelled.
\<close>

subsection \<open>Python strings\<close>

definition newline :: char where
  "newline = CHR 0x0A"

definition backslash :: char where
  "backslash = CHR 0x5C"

definition dquote :: char where
  "dquote = CHR 0x22"

text \<open>\<^verbatim>\<open>str.isspace\<close> on the code points below 256.\<close>

definition isspace :: "char \<Rightarrow> bool" where
  "isspace c = (c \<in> set [CHR 0x09, CHR 0x0A, CHR 0x0B, CHR 0x0C, CHR 0x0D, CHR 0x1C,
                          CHR 0x1D, CHR 0x1E, CHR 0x1F, CHR 0x20, CHR 0x85, CHR 0xA0])"

text \<open>\<^verbatim>\<open>s.strip()\<close>\<close>

definition strip :: "string \<Rightarrow> string" where
  "strip s = rev (dropWhile isspace (rev (dropWhile isspace s)))"

text \<open>\<^verbatim>\<open>s.startswith(p)\<close>\<close>

definition startswith :: "string \<Rightarrow> string \<Rightarrow> bool" where
  "startswith s p = (take (length p) s = p)"

text \<open>\<^verbatim>\<open>s.find(sub)\<close>: the lowest index where \<open>sub\<close> occurs; \<open>None\<close> is Python's -1.\<close>

fun find_str :: "string \<Rightarrow> string \<Rightarrow> nat option" where
  "find_str [] sub = (if sub = [] then Some 0 else None)"
| "find_str (c # cs) sub =
     (if startswith (c # cs) sub then Some 0 else map_option Suc (find_str cs sub))"

text \<open>\<^verbatim>\<open>sub in s\<close>\<close>

definition contains :: "string \<Rightarrow> string \<Rightarrow> bool" where
  "contains s sub = (find_str s sub \<noteq> None)"

text \<open>\<^verbatim>\<open>content.split('\n')\<close>: never empty, the last piece is what follows the last newline.\<close>

fun split_lines :: "string \<Rightarrow> string list" where
  "split_lines [] = [[]]"
| "split_lines (c # cs) =
     (if c = newline then [] # split_lines cs
      else (case split_lines cs of [] \<Rightarrow> [[c]] | l # ls \<Rightarrow> (c # l) # ls))"

text \<open>\<^verbatim>\<open>'\n'.join(block_lines)\<close>\<close>

fun join_lines :: "string list \<Rightarrow> string" where
  "join_lines [] = []"
| "join_lines [l] = l"
| "join_lines (l # l' # ls) = l @ newline # join_lines (l' # ls)"

text \<open>The decimal digits of \<^verbatim>\<open>f"{n}"\<close>.\<close>

definition digit_char :: "nat \<Rightarrow> char" where
  "digit_char d = char_of (48 + d)"

fun str_of_nat :: "nat \<Rightarrow> string" where
  "str_of_nat n = (if n < 10 then [digit_char n] else str_of_nat (n div 10) @ [digit_char (n mod 10)])"

subsection \<open>The two timestamp patterns\<close>

text \<open>
  Both regular expressions of the segmenter are fixed-width sequences of \<^verbatim>\<open>\d\<close> and
  literal characters, matched by \<^verbatim>\<open>re.match\<close> at the start of the line. Below 256
  the class \<^verbatim>\<open>\d\<close> is 0 to 9.
\<close>

datatype pat = Digit | Lit char

definition isdigit :: "char \<Rightarrow> bool" where
  "isdigit c = (c \<in> set ''0123456789'')"

fun re_match :: "pat list \<Rightarrow> string \<Rightarrow> bool" where
  "re_match [] s = True"
| "re_match (p # ps) [] = False"
| "re_match (Digit # ps) (c # cs) = (isdigit c \<and> re_match ps cs)"
| "re_match (Lit x # ps) (c # cs) = (c = x \<and> re_match ps cs)"

text \<open>\<^verbatim>\<open>^\d{4}-\d{2}-\d{2} \d{2}:\d{2}:\d{2}\<close>\<close>

definition timestamp_pattern :: "pat list" where
  "timestamp_pattern =
     [Digit, Digit, Digit, Digit, Lit CHR ''-'', Digit, Digit, Lit CHR ''-'', Digit, Digit,
      Lit CHR '' '', Digit, Digit, Lit CHR '':'', Digit, Digit, Lit CHR '':'', Digit, Digit]"

text \<open>\<^verbatim>\<open>^(\d{4}-\d{2}-\d{2} \d{2}:\d{2}:\d{2},\d{3})\<close>\<close>

definition timestamp_ms_pattern :: "pat list" where
  "timestamp_ms_pattern = timestamp_pattern @ [Lit CHR '','', Digit, Digit, Digit]"

text \<open>\<^verbatim>\<open>timestamp_match\<close> and its \<^verbatim>\<open>group(1)\<close>.\<close>

definition timestamp_match :: "string \<Rightarrow> string option" where
  "timestamp_match line =
     (if re_match timestamp_ms_pattern line then Some (take (length timestamp_ms_pattern) line)
      else None)"

subsection \<open>What the analyzer takes from Python's library\<close>

text \<open>
  \<^verbatim>\<open>datetime\<close> and \<^verbatim>\<open>json\<close> are not code of the repository; the analyzer is
  modelled for every behaviour of theirs. An instant is a value of a linear order \<open>'t\<close>.
  \<^item> \<open>strptime s fmt\<close> is \<^verbatim>\<open>datetime.strptime(s, fmt)\<close>, \<open>None\<close> when it raises
    \<^verbatim>\<open>ValueError\<close>;
  \<^item> \<open>strftime t fmt\<close> is \<^verbatim>\<open>t.strftime(fmt)\<close>;
  \<^item> \<open>now i\<close> is what \<^verbatim>\<open>datetime.now()\<close> reads while the segmenter is at line
    \<open>i\<close>: one reading for each call, all of them arbitrary;
  \<^item> \<open>json_loads s\<close> is \<^verbatim>\<open>json.loads(s)\<close>, \<open>None\<close> when it raises
    \<^verbatim>\<open>json.JSONDecodeError\<close>.
\<close>

datatype json =
    JNull
  | JBool bool
  | JInt int
  | JFloat string
  | JStr string
  | JArr "json list"
  | JObj "(string \<times> json) list"

record 't pylib =
  strptime :: "string \<Rightarrow> string \<Rightarrow> 't option"
  strftime :: "'t \<Rightarrow> string \<Rightarrow> string"
  now :: "nat \<Rightarrow> 't"
  json_loads :: "string \<Rightarrow> json option"

text \<open>The exceptions of the analysis that no handler of \<^verbatim>\<open>analyze_logfile\<close> catches.\<close>

datatype py_error = AttributeError | TypeError

subsection \<open>parse\_timestamp\<close>

definition fmt_ms :: string where
  "fmt_ms = ''%Y-%m-%d %H:%M:%S,%f''"

definition fmt_s :: string where
  "fmt_s = ''%Y-%m-%d %H:%M:%S''"

text \<open>\<open>wall_clock\<close> is the reading \<^verbatim>\<open>datetime.now()\<close> gives if this call reaches it.\<close>

definition parse_timestamp :: "'t pylib \<Rightarrow> 't \<Rightarrow> string \<Rightarrow> 't" where
  "parse_timestamp L wall_clock timestamp_str =
     (case strptime L timestamp_str fmt_ms of
        Some t \<Rightarrow> t
      | None \<Rightarrow>
          (case strptime L (take 19 timestamp_str) fmt_s of
             Some t \<Rightarrow> t
           | None \<Rightarrow> wall_clock))"

subsection \<open>Segmenting the log into HISTORY blocks\<close>

definition history_marker_text :: string where
  "history_marker_text = ''[HISTORY][''"

text \<open>One entry of \<^verbatim>\<open>history_blocks\<close>; the fields are the keys of the dictionary.\<close>

record 't history_block =
  b_timestamp :: 't
  b_timestamp_str :: string
  b_content :: string
  b_line_number :: nat

text \<open>
  The inner \<^verbatim>\<open>while j < len(lines)\<close>: the index where it stops, at the first line from
  \<open>j\<close> on that starts with a timestamp, or at the end of the file.
\<close>

function block_end :: "string list \<Rightarrow> nat \<Rightarrow> nat" where
  "block_end lines j =
     (if j < length lines then
        (if re_match timestamp_pattern (lines ! j) then j else block_end lines (j + 1))
      else j)"
  by pat_completeness auto
termination
  by (relation "measure (\<lambda>(lines, j). length lines - j)") auto

declare block_end.simps [simp del]

text \<open>\<^verbatim>\<open>block_lines\<close> when the inner loop has stopped at \<open>j\<close>: line \<open>i\<close> and the lines up to \<open>j\<close>.\<close>

definition block_lines :: "string list \<Rightarrow> nat \<Rightarrow> nat \<Rightarrow> string list" where
  "block_lines lines i j = lines ! i # take (j - (i + 1)) (drop (i + 1) lines)"

text \<open>The outer \<^verbatim>\<open>while i < len(lines)\<close>, from index \<open>i\<close>; the blocks in the order they are appended.\<close>

function collect_history_blocks :: "'t pylib \<Rightarrow> string list \<Rightarrow> nat \<Rightarrow> 't history_block list" where
  "collect_history_blocks L lines i =
     (if i < length lines then
        (let line = lines ! i in
         if contains line history_marker_text then
           (case timestamp_match line of
              Some timestamp_str \<Rightarrow>
                (let timestamp = parse_timestamp L (now L i) timestamp_str;
                     j = block_end lines (i + 1);
                     block_content = join_lines (block_lines lines i j)
                 in \<lparr>b_timestamp = timestamp, b_timestamp_str = timestamp_str,
                      b_content = block_content, b_line_number = i\<rparr>
                    # collect_history_blocks L lines j)
            | None \<Rightarrow> collect_history_blocks L lines (i + 1))
         else collect_history_blocks L lines (i + 1))
      else [])"
  by pat_completeness auto
termination
proof -
  have ge: "j \<le> block_end lines j" for lines j
  proof (induction lines j rule: block_end.induct)
    case (1 lines j)
    show ?case
    proof (cases "j < length lines \<and> \<not> re_match timestamp_pattern (lines ! j)")
      case True
      with 1 have "j + 1 \<le> block_end lines (j + 1)" by simp
      with True show ?thesis by (subst block_end.simps) simp
    next
      case False
      then show ?thesis by (subst block_end.simps) auto
    qed
  qed
  have less: "length lines - block_end lines (Suc i) < length lines - i"
    if "i < length lines" for lines :: "string list" and i
    using that ge [of "Suc i" lines] by simp
  show ?thesis
    by (relation "measure (\<lambda>(L, lines, i). length lines - i)") (auto intro: less)
qed

declare collect_history_blocks.simps [simp del]

subsection \<open>The bracket scan\<close>

text \<open>
  The \<^verbatim>\<open>for k, char in enumerate(json_part)\<close> loop over the rest of the text from index
  \<open>k\<close>, with the three variables it keeps. \<open>Some e\<close> is the \<^verbatim>\<open>json_end\<close> assigned before
  \<^verbatim>\<open>break\<close>, \<open>None\<close> a loop that ran to the end.
\<close>

fun scan_brackets :: "string \<Rightarrow> nat \<Rightarrow> bool \<Rightarrow> bool \<Rightarrow> int \<Rightarrow> nat option" where
  "scan_brackets [] k in_string escape_next bracket_count = None"
| "scan_brackets (char # rest) k in_string escape_next bracket_count =
     (if escape_next then scan_brackets rest (k + 1) in_string False bracket_count
      else if char = backslash \<and> in_string then scan_brackets rest (k + 1) in_string True bracket_count
      else
        (let in_string' = (if char = dquote \<and> \<not> escape_next then \<not> in_string else in_string) in
         if \<not> in_string' then
           (if char = CHR ''['' then
              scan_brackets rest (k + 1) in_string' escape_next (bracket_count + 1)
            else if char = CHR '']'' then
              (if bracket_count - 1 = 0 then Some (k + 1)
               else scan_brackets rest (k + 1) in_string' escape_next (bracket_count - 1))
            else scan_brackets rest (k + 1) in_string' escape_next bracket_count)
         else scan_brackets rest (k + 1) in_string' escape_next bracket_count))"

definition json_end :: "string \<Rightarrow> nat" where
  "json_end json_part =
     (case scan_brackets json_part 0 False False 0 of Some e \<Rightarrow> e | None \<Rightarrow> length json_part)"

text \<open>
  From the text after the marker to \<^verbatim>\<open>json_str\<close>: strip, supply the opening bracket before a
  brace, cut at \<^verbatim>\<open>json_end\<close>. \<open>None\<close> is the \<^verbatim>\<open>continue\<close> for a payload that starts with
  neither.
\<close>

definition extract_json_str :: "string \<Rightarrow> string option" where
  "extract_json_str payload =
     (let json_part = strip payload in
      if \<not> startswith json_part ''['' then
        (if startswith json_part ''{'' then
           (let json_part = CHR ''['' # json_part in Some (take (json_end json_part) json_part))
         else None)
      else Some (take (json_end json_part) json_part))"

text \<open>From \<^verbatim>\<open>block_content\<close> to \<^verbatim>\<open>json_str\<close>; \<open>None\<close> also when the marker is missing.\<close>

definition block_json_str :: "string \<Rightarrow> string option" where
  "block_json_str block_content =
     (case find_str block_content history_marker_text of
        None \<Rightarrow> None
      | Some history_marker \<Rightarrow>
          extract_json_str (drop (history_marker + length history_marker_text) block_content))"

text \<open>
  \<^verbatim>\<open>history_data\<close> of a block; \<open>None\<close> when the block is left by \<^verbatim>\<open>continue\<close>, before or in
  \<^verbatim>\<open>json.loads\<close>.
\<close>

definition decode_block :: "'t pylib \<Rightarrow> string \<Rightarrow> json option" where
  "decode_block L block_content =
     (case block_json_str block_content of
        None \<Rightarrow> None
      | Some json_str \<Rightarrow> json_loads L json_str)"

subsection \<open>Turns of a decoded block\<close>

text \<open>
  \<^verbatim>\<open>for msg in history_data\<close>: the elements Python iterates over. A list gives its elements, a
  dictionary its keys, a string its characters; any other value raises \<^verbatim>\<open>TypeError\<close>.
\<close>

fun iterate :: "json \<Rightarrow> py_error + json list" where
  "iterate (JArr xs) = Inr xs"
| "iterate (JObj kvs) = Inr (map (\<lambda>kv. JStr (fst kv)) kvs)"
| "iterate (JStr s) = Inr (map (\<lambda>c. JStr [c]) s)"
| "iterate v = Inl TypeError"

text \<open>\<^verbatim>\<open>msg.get(key)\<close>: only a dictionary has the method.\<close>

fun dict_get :: "json \<Rightarrow> string \<Rightarrow> py_error + json option" where
  "dict_get (JObj kvs) key = Inr (map_of kvs key)"
| "dict_get v key = Inl AttributeError"

text \<open>\<^verbatim>\<open>msg.get('role') == role\<close>\<close>

definition role_is :: "json \<Rightarrow> string \<Rightarrow> py_error + bool" where
  "role_is msg role =
     (case dict_get msg ''role'' of Inl e \<Rightarrow> Inl e | Inr v \<Rightarrow> Inr (v = Some (JStr role)))"

text \<open>\<^verbatim>\<open>msg.get('content', '').strip()\<close>: only a string has the method.\<close>

definition content_of :: "json \<Rightarrow> py_error + string" where
  "content_of msg =
     (case dict_get msg ''content'' of
        Inl e \<Rightarrow> Inl e
      | Inr None \<Rightarrow> Inr (strip [])
      | Inr (Some (JStr s)) \<Rightarrow> Inr (strip s)
      | Inr (Some v) \<Rightarrow> Inl AttributeError)"

text \<open>
  \<^verbatim>\<open>[msg.get('content', '').strip() for msg in history_data if msg.get('role') == 'user']\<close>
\<close>

fun user_messages_of :: "json list \<Rightarrow> py_error + string list" where
  "user_messages_of [] = Inr []"
| "user_messages_of (msg # rest) =
     (case role_is msg ''user'' of
        Inl e \<Rightarrow> Inl e
      | Inr True \<Rightarrow>
          (case content_of msg of
             Inl e \<Rightarrow> Inl e
           | Inr c \<Rightarrow>
               (case user_messages_of rest of Inl e \<Rightarrow> Inl e | Inr cs \<Rightarrow> Inr (c # cs)))
      | Inr False \<Rightarrow> user_messages_of rest)"

subsection \<open>Messages and conversations\<close>

type_synonym document = "(string \<times> string) list"

record 't message =
  timestamp :: 't
  user_message :: string
  claude_response :: string
  context_documents :: "document list"

record 't conversation =
  chat_id :: string
  first_message :: string
  start_time :: 't
  message_count :: nat
  messages :: "'t message list"

text \<open>One entry of \<^verbatim>\<open>found_conversations\<close>.\<close>

record 't found_conversation =
  f_user_messages :: "string list"
  f_conversation :: "'t conversation"
  f_timestamp :: 't

text \<open>The \<^verbatim>\<open>is_subset\<close> flag after the loop over \<^verbatim>\<open>found_conversations\<close>.\<close>

definition is_subset :: "string list \<Rightarrow> 't found_conversation list \<Rightarrow> bool" where
  "is_subset user_messages found_conversations =
     list_ex (\<lambda>existing_conv.
        length user_messages \<le> length (f_user_messages existing_conv)
        \<and> user_messages = take (length user_messages) (f_user_messages existing_conv))
       found_conversations"

definition no_response :: string where
  "no_response = ''[Keine Claude-Antwort gefunden]''"

text \<open>
  \<^verbatim>\<open>for k in range(j + 1, len(full_history_data))\<close> over the turns after index \<open>j\<close>: the
  stripped content of the first assistant turn, \<open>None\<close> when the loop ends without one.
\<close>

fun next_assistant :: "json list \<Rightarrow> py_error + string option" where
  "next_assistant [] = Inr None"
| "next_assistant (msg # rest) =
     (case role_is msg ''assistant'' of
        Inl e \<Rightarrow> Inl e
      | Inr True \<Rightarrow> (case content_of msg of Inl e \<Rightarrow> Inl e | Inr c \<Rightarrow> Inr (Some c))
      | Inr False \<Rightarrow> next_assistant rest)"

text \<open>
  \<^verbatim>\<open>for j, msg in enumerate(full_history_data)\<close>: the loop leaves at the first user turn whose
  stripped content is \<open>user_msg\<close>, with the answer found after it or with the initial value.
\<close>

fun find_claude_response :: "json list \<Rightarrow> string \<Rightarrow> py_error + string" where
  "find_claude_response [] user_msg = Inr no_response"
| "find_claude_response (msg # rest) user_msg =
     (case role_is msg ''user'' of
        Inl e \<Rightarrow> Inl e
      | Inr True \<Rightarrow>
          (case content_of msg of
             Inl e \<Rightarrow> Inl e
           | Inr c \<Rightarrow>
               (if c = user_msg then
                  (case next_assistant rest of
                     Inl e \<Rightarrow> Inl e
                   | Inr None \<Rightarrow> Inr no_response
                   | Inr (Some response) \<Rightarrow> Inr response)
                else find_claude_response rest user_msg))
      | Inr False \<Rightarrow> find_claude_response rest user_msg)"

text \<open>
  \<^verbatim>\<open>for search_block in history_blocks\<close>: the documents of the first block, in the order of
  the list, that decodes to \<open>target_msg_count\<close> user messages the last of which is \<open>user_msg\<close>.
  \<open>extract_context_documents\<close> stands for the method of that name, a function of the block's text
  that raises nothing; the analysis is modelled for every such function.
\<close>

fun find_context_docs ::
  "'t pylib \<Rightarrow> (string \<Rightarrow> document list) \<Rightarrow> 't history_block list \<Rightarrow> nat \<Rightarrow> string
     \<Rightarrow> py_error + document list" where
  "find_context_docs L extract_context_documents [] target_msg_count user_msg = Inr []"
| "find_context_docs L extract_context_documents (search_block # rest) target_msg_count user_msg =
     (let search_content = b_content search_block in
      case decode_block L search_content of
        None \<Rightarrow> find_context_docs L extract_context_documents rest target_msg_count user_msg
      | Some search_history_data \<Rightarrow>
          (case iterate search_history_data of
             Inl e \<Rightarrow> Inl e
           | Inr turns \<Rightarrow>
               (case user_messages_of turns of
                  Inl e \<Rightarrow> Inl e
                | Inr search_user_messages \<Rightarrow>
                    (if length search_user_messages = target_msg_count
                        \<and> length search_user_messages > 0
                        \<and> last search_user_messages = user_msg
                     then Inr (extract_context_documents search_content)
                     else find_context_docs L extract_context_documents rest target_msg_count
                            user_msg))))"

text \<open>\<^verbatim>\<open>for i, user_msg in enumerate(user_messages)\<close>, from index \<open>i\<close>.\<close>

fun build_messages ::
  "'t pylib \<Rightarrow> (string \<Rightarrow> document list) \<Rightarrow> 't history_block list \<Rightarrow> 't \<Rightarrow> json list
     \<Rightarrow> nat \<Rightarrow> string list \<Rightarrow> py_error + 't message list" where
  "build_messages L extract_context_documents history_blocks ts full_history_data i [] = Inr []"
| "build_messages L extract_context_documents history_blocks ts full_history_data i (user_msg # rest) =
     (case find_claude_response full_history_data user_msg of
        Inl e \<Rightarrow> Inl e
      | Inr response \<Rightarrow>
          (case find_context_docs L extract_context_documents history_blocks (i + 1) user_msg of
             Inl e \<Rightarrow> Inl e
           | Inr context_docs \<Rightarrow>
               (case build_messages L extract_context_documents history_blocks ts full_history_data
                       (i + 1) rest of
                  Inl e \<Rightarrow> Inl e
                | Inr ms \<Rightarrow>
                    Inr (\<lparr>timestamp = ts, user_message = user_msg, claude_response = response,
                          context_documents = context_docs\<rparr> # ms))))"

text \<open>\<^verbatim>\<open>f"conv_{len(found_conversations) + 1}_{timestamp.strftime('%Y%m%d_%H%M%S')}"\<close>\<close>

definition conversation_id :: "'t pylib \<Rightarrow> 't found_conversation list \<Rightarrow> 't \<Rightarrow> string" where
  "conversation_id L found_conversations ts =
     ''conv_'' @ str_of_nat (length found_conversations + 1) @ ''_''
       @ strftime L ts ''%Y%m%d_%H%M%S''"

text \<open>
  The body of \<^verbatim>\<open>for hist_block in history_blocks\<close> for one block: \<^verbatim>\<open>found_conversations\<close>
  after it, or the exception that ends the analysis.
\<close>

definition process_block ::
  "'t pylib \<Rightarrow> (string \<Rightarrow> document list) \<Rightarrow> 't history_block list
     \<Rightarrow> 't found_conversation list \<Rightarrow> 't history_block
     \<Rightarrow> py_error + 't found_conversation list" where
  "process_block L extract_context_documents history_blocks found_conversations hist_block =
     (let ts = b_timestamp hist_block in
      case decode_block L (b_content hist_block) of
        None \<Rightarrow> Inr found_conversations
      | Some history_data \<Rightarrow>
          (case iterate history_data of
             Inl e \<Rightarrow> Inl e
           | Inr turns \<Rightarrow>
               (case user_messages_of turns of
                  Inl e \<Rightarrow> Inl e
                | Inr [] \<Rightarrow> Inr found_conversations
                | Inr (first # others) \<Rightarrow>
                    (let user_messages = first # others in
                     if is_subset user_messages found_conversations then Inr found_conversations
                     else
                       (case build_messages L extract_context_documents history_blocks ts turns 0
                               user_messages of
                          Inl e \<Rightarrow> Inl e
                        | Inr msgs \<Rightarrow>
                            Inr (found_conversations @
                              [\<lparr>f_user_messages = user_messages,
                                f_conversation =
                                  \<lparr>chat_id = conversation_id L found_conversations ts,
                                   first_message = first,
                                   start_time = ts,
                                   message_count = length user_messages,
                                   messages = msgs\<rparr>,
                                f_timestamp = ts\<rparr>]))))))"

text \<open>The loop over the sorted blocks, from the given \<^verbatim>\<open>found_conversations\<close>.\<close>

fun process_blocks ::
  "'t pylib \<Rightarrow> (string \<Rightarrow> document list) \<Rightarrow> 't history_block list
     \<Rightarrow> 't found_conversation list \<Rightarrow> 't history_block list
     \<Rightarrow> py_error + 't found_conversation list" where
  "process_blocks L extract_context_documents history_blocks found_conversations [] =
     Inr found_conversations"
| "process_blocks L extract_context_documents history_blocks found_conversations (hist_block # rest) =
     (case process_block L extract_context_documents history_blocks found_conversations hist_block of
        Inl e \<Rightarrow> Inl e
      | Inr found' \<Rightarrow> process_blocks L extract_context_documents history_blocks found' rest)"

text \<open>
  \<^verbatim>\<open>history_blocks.sort(key=..., reverse=True)\<close>: Python reverses the list, sorts it stably and
  reverses the result, so blocks of one timestamp keep the order of the file.
\<close>

definition sort_newest_first :: "('t::linorder) history_block list \<Rightarrow> 't history_block list" where
  "sort_newest_first history_blocks = rev (sort_key b_timestamp (rev history_blocks))"

text \<open>The final dictionary \<^verbatim>\<open>self.conversations\<close>, as the list of its items in insertion order.\<close>

definition number_conversations ::
  "'t found_conversation list \<Rightarrow> (string \<times> 't conversation) list" where
  "number_conversations found_conversations =
     map (\<lambda>(i, conv_data). (''conversation_'' @ str_of_nat (i + 1), f_conversation conv_data))
       (enumerate 0 found_conversations)"

text \<open>\<^verbatim>\<open>analyze_logfile\<close> on the text read from the log file.\<close>

definition analyze_logfile ::
  "('t::linorder) pylib \<Rightarrow> (string \<Rightarrow> document list) \<Rightarrow> string
     \<Rightarrow> py_error + (string \<times> 't conversation) list" where
  "analyze_logfile L extract_context_documents content =
     (let lines = split_lines content;
          history_blocks = sort_newest_first (collect_history_blocks L lines 0)
      in case process_blocks L extract_context_documents history_blocks [] history_blocks of
           Inl e \<Rightarrow> Inl e
         | Inr found_conversations \<Rightarrow>
             Inr (number_conversations (sort_key f_timestamp found_conversations)))"

section \<open>What the claims speak of\<close>

subsection \<open>Blocks and their user messages\<close>

text \<open>
  The list \<^verbatim>\<open>user_messages\<close> of a block: \<open>None\<close> when the block is left before or in
  \<^verbatim>\<open>json.loads\<close>, \<open>Some (Inl e)\<close> when the comprehension raises \<open>e\<close>.
\<close>

definition block_user_messages :: "'t pylib \<Rightarrow> string \<Rightarrow> (py_error + string list) option" where
  "block_user_messages L block_content =
     (case decode_block L block_content of
        None \<Rightarrow> None
      | Some history_data \<Rightarrow>
          Some (case iterate history_data of Inl e \<Rightarrow> Inl e | Inr turns \<Rightarrow> user_messages_of turns))"

text \<open>
  A block that was logged when \<open>user_msg\<close> was the newest user message of a conversation and
  stood at the 1-based \<open>position\<close>.
\<close>

definition is_context_block :: "'t pylib \<Rightarrow> nat \<Rightarrow> string \<Rightarrow> 't history_block \<Rightarrow> bool" where
  "is_context_block L position user_msg b =
     (case block_user_messages L (b_content b) of
        Some (Inr ums) \<Rightarrow> length ums = position \<and> ums \<noteq> [] \<and> last ums = user_msg
      | _ \<Rightarrow> False)"

text \<open>A turn with the given role whose content, stripped, is \<open>text\<close>.\<close>

definition is_turn :: "json \<Rightarrow> string \<Rightarrow> string \<Rightarrow> bool" where
  "is_turn msg role text = (dict_get msg ''role'' = Inr (Some (JStr role)) \<and> content_of msg = Inr text)"

text \<open>
  The list is no longer than the user messages of some claimed conversation and equals them
  cut to its length.
\<close>

definition claimed_prefix :: "string list \<Rightarrow> 't found_conversation list \<Rightarrow> bool" where
  "claimed_prefix ums found =
     (\<exists>f\<in>set found. length ums \<le> length (f_user_messages f)
        \<and> ums = take (length ums) (f_user_messages f))"

subsection \<open>Block starts and continuation lines\<close>

text \<open>A line that carries the marker and starts with a timestamp with milliseconds.\<close>

definition starts_block :: "string \<Rightarrow> bool" where
  "starts_block line = (contains line history_marker_text \<and> timestamp_match line \<noteq> None)"

text \<open>The lines after line \<open>i\<close>, up to the first one that starts with a timestamp.\<close>

definition continuation :: "string list \<Rightarrow> nat \<Rightarrow> string list" where
  "continuation lines i = takeWhile (\<lambda>l. \<not> re_match timestamp_pattern l) (drop (i + 1) lines)"

subsection \<open>Bracket depth\<close>

text \<open>
  The characters of a text outside its string literals. A literal opens at a double quote and
  closes at the next double quote that no backslash escapes; inside a literal a backslash
  escapes the character after it. The two flags say whether the text starts inside a literal
  and whether its first character is escaped.
\<close>

fun unquoted :: "bool \<Rightarrow> bool \<Rightarrow> string \<Rightarrow> string" where
  "unquoted in_literal escaped [] = []"
| "unquoted in_literal escaped (c # cs) =
     (if in_literal then
        (if escaped then unquoted True False cs
         else if c = backslash then unquoted True True cs
         else if c = dquote then unquoted False False cs
         else unquoted True False cs)
      else (if c = dquote then unquoted True False cs else c # unquoted False False cs))"

text \<open>Opening minus closing square brackets outside string literals.\<close>

definition depth_from :: "bool \<Rightarrow> bool \<Rightarrow> string \<Rightarrow> int" where
  "depth_from in_literal escaped s =
     int (count_list (unquoted in_literal escaped s) CHR ''['')
       - int (count_list (unquoted in_literal escaped s) CHR '']'')"

definition bracket_depth :: "string \<Rightarrow> int" where
  "bracket_depth s = depth_from False False s"

text \<open>The depth is back at zero after the first \<open>n\<close> characters.\<close>

definition balanced_at :: "string \<Rightarrow> nat \<Rightarrow> bool" where
  "balanced_at s n = (0 < n \<and> n \<le> length s \<and> bracket_depth (take n s) = 0)"

section \<open>Worked inputs\<close>

text \<open>
  The inputs below are used to run the definitions on concrete logs. \<open>sample_lib\<close> is an
  excerpt of Python's library: it answers as \<^verbatim>\<open>datetime.strptime\<close>,
  \<^verbatim>\<open>strftime\<close> and \<^verbatim>\<open>json.loads\<close> do on the texts and the instants of
  these logs, and \<open>strptime\<close> and \<open>json_loads\<close> answer \<open>None\<close> on every other text.
  An instant is the number of seconds after 2024-05-01 10:00:00.
\<close>

definition turn :: "string \<Rightarrow> string \<Rightarrow> json" where
  "turn role text = JObj [(''role'', JStr role), (''content'', JStr text)]"

definition snapshot_hi :: string where
  \<open>snapshot_hi = ''[{"role":"user","content":"hi"}]''\<close>

definition snapshot_hi_bye :: string where
  \<open>snapshot_hi_bye =
     ''[{"role":"user","content":"hi"},{"role":"assistant","content":"hello"},{"role":"user","content":"bye"}]''\<close>

definition snapshot_system :: string where
  \<open>snapshot_system = ''[{"role":"system","content":"be brief"}]''\<close>

definition snapshot_ok_twice :: string where
  \<open>snapshot_ok_twice =
     ''[{"role":"user","content":"ok"},{"role":"assistant","content":"first"},{"role":"user","content":"ok"},{"role":"assistant","content":"second"}]''\<close>

definition snapshot_ok_pending :: string where
  \<open>snapshot_ok_pending =
     ''[{"role":"user","content":"ok"},{"role":"assistant","content":"first"},{"role":"user","content":"ok"}]''\<close>

definition sample_lib :: "nat pylib" where
  "sample_lib =
     \<lparr>strptime = (\<lambda>s fmt.
        if fmt = fmt_ms then
          map_of [(''2024-05-01 10:00:00,000'', 0), (''2024-05-01 10:00:05,000'', 5),
                  (''2024-05-01 10:00:09,000'', 9)] s
        else if fmt = fmt_s then
          map_of [(''2024-05-01 10:00:00'', 0), (''2024-05-01 10:00:05'', 5),
                  (''2024-05-01 10:00:07'', 7), (''2024-05-01 10:00:09'', 9)] s
        else None),
      strftime = (\<lambda>t fmt. ''20240501_10000'' @ str_of_nat t),
      now = (\<lambda>i. 60 + i),
      json_loads = map_of
        [(snapshot_hi, JArr [turn ''user'' ''hi'']),
         (snapshot_hi_bye,
          JArr [turn ''user'' ''hi'', turn ''assistant'' ''hello'', turn ''user'' ''bye'']),
         (snapshot_system, JArr [turn ''system'' ''be brief'']),
         (snapshot_ok_twice,
          JArr [turn ''user'' ''ok'', turn ''assistant'' ''first'', turn ''user'' ''ok'',
                turn ''assistant'' ''second'']),
         (snapshot_ok_pending,
          JArr [turn ''user'' ''ok'', turn ''assistant'' ''first'', turn ''user'' ''ok''])]\<rparr>"

text \<open>
  A stand-in for \<^verbatim>\<open>extract_context_documents\<close>: one document that carries the first 23
  characters of the text it was given, so that a result shows which block was read.
\<close>

definition sample_extract :: "string \<Rightarrow> document list" where
  "sample_extract text = [[(''id'', ''1''), (''title'', ''read from''), (''content'', take 23 text)]]"

definition log_line :: "string \<Rightarrow> string \<Rightarrow> string" where
  "log_line stamp snapshot = stamp @ '' INFO [HISTORY]'' @ snapshot"

text \<open>Three snapshots of one conversation, oldest first; the last two are the same.\<close>

definition log_three_snapshots :: string where
  "log_three_snapshots =
     log_line ''2024-05-01 10:00:00,000'' snapshot_hi @ newline #
     log_line ''2024-05-01 10:00:05,000'' snapshot_hi_bye @ newline #
     log_line ''2024-05-01 10:00:09,000'' snapshot_hi_bye"

text \<open>
  An older conversation of two user messages, a newer one that stops after the same first
  message, and a newest block without any user turn.
\<close>

definition log_newer_prefix :: string where
  "log_newer_prefix =
     log_line ''2024-05-01 10:00:00,000'' snapshot_hi_bye @ newline #
     log_line ''2024-05-01 10:00:05,000'' snapshot_hi @ newline #
     log_line ''2024-05-01 10:00:09,000'' snapshot_system"

text \<open>One conversation in which the user writes the same message twice.\<close>

definition log_ok_twice :: string where
  "log_ok_twice = log_line ''2024-05-01 10:00:00,000'' snapshot_ok_twice"

definition log_ok_pending :: string where
  "log_ok_pending = log_line ''2024-05-01 10:00:00,000'' snapshot_ok_pending"

text \<open>
  Lines for the segmenter: a marker without a timestamp, a block of two lines, a line with a
  timestamp and no marker, and a block that runs to the end.
\<close>

definition segmenter_lines :: "string list" where
  "segmenter_lines =
     [''[HISTORY][ restarted'',
      log_line ''2024-05-01 10:00:00,000'' snapshot_hi,
      ''  (wrapped)'',
      ''2024-05-01 10:00:05 WARN slow request'',
      log_line ''2024-05-01 10:00:09,000'' snapshot_hi_bye,
      ''trailer'']"

text \<open>The blocks of these logs, and the conversations the analysis builds from them.\<close>

definition sample_block :: "string \<Rightarrow> nat \<Rightarrow> string \<Rightarrow> nat \<Rightarrow> nat history_block" where
  "sample_block stamp t snapshot line =
     \<lparr>b_timestamp = t, b_timestamp_str = stamp, b_content = log_line stamp snapshot,
      b_line_number = line\<rparr>"

definition block_hi_at_0 :: "nat history_block" where
  "block_hi_at_0 = sample_block ''2024-05-01 10:00:00,000'' 0 snapshot_hi 0"

definition block_hi_bye_at_5 :: "nat history_block" where
  "block_hi_bye_at_5 = sample_block ''2024-05-01 10:00:05,000'' 5 snapshot_hi_bye 1"

definition block_hi_bye_at_9 :: "nat history_block" where
  "block_hi_bye_at_9 = sample_block ''2024-05-01 10:00:09,000'' 9 snapshot_hi_bye 2"

definition block_system_at_9 :: "nat history_block" where
  "block_system_at_9 = sample_block ''2024-05-01 10:00:09,000'' 9 snapshot_system 2"

definition read_from :: "string \<Rightarrow> document list" where
  "read_from stamp = [[(''id'', ''1''), (''title'', ''read from''), (''content'', stamp)]]"

definition three_snapshots_conversation :: "nat conversation" where
  "three_snapshots_conversation =
     \<lparr>chat_id = ''conv_1_20240501_100009'', first_message = ''hi'', start_time = 9,
      message_count = 2,
      messages =
        [\<lparr>timestamp = 9, user_message = ''hi'', claude_response = ''hello'',
          context_documents = read_from ''2024-05-01 10:00:00,000''\<rparr>,
         \<lparr>timestamp = 9, user_message = ''bye'', claude_response = no_response,
          context_documents = read_from ''2024-05-01 10:00:09,000''\<rparr>]\<rparr>"

definition three_snapshots_found :: "nat found_conversation" where
  "three_snapshots_found =
     \<lparr>f_user_messages = [''hi'', ''bye''], f_conversation = three_snapshots_conversation,
      f_timestamp = 9\<rparr>"

definition older_conversation :: "nat conversation" where
  "older_conversation =
     \<lparr>chat_id = ''conv_2_20240501_100000'', first_message = ''hi'', start_time = 0,
      message_count = 2,
      messages =
        [\<lparr>timestamp = 0, user_message = ''hi'', claude_response = ''hello'',
          context_documents = read_from ''2024-05-01 10:00:05,000''\<rparr>,
         \<lparr>timestamp = 0, user_message = ''bye'', claude_response = no_response,
          context_documents = read_from ''2024-05-01 10:00:00,000''\<rparr>]\<rparr>"

definition newer_conversation :: "nat conversation" where
  "newer_conversation =
     \<lparr>chat_id = ''conv_1_20240501_100005'', first_message = ''hi'', start_time = 5,
      message_count = 1,
      messages =
        [\<lparr>timestamp = 5, user_message = ''hi'', claude_response = no_response,
          context_documents = read_from ''2024-05-01 10:00:05,000''\<rparr>]\<rparr>"

definition ok_conversation :: "nat conversation" where
  "ok_conversation =
     \<lparr>chat_id = ''conv_1_20240501_100000'', first_message = ''ok'', start_time = 0,
      message_count = 2,
      messages =
        [\<lparr>timestamp = 0, user_message = ''ok'', claude_response = ''first'',
          context_documents = []\<rparr>,
         \<lparr>timestamp = 0, user_message = ''ok'', claude_response = ''first'',
          context_documents = read_from ''2024-05-01 10:00:00,000''\<rparr>]\<rparr>"

text \<open>The payload of the bracket example: an array, then text that does not belong to it.\<close>

definition payload_with_trailer :: string where
  \<open>payload_with_trailer = ''[{"role":"user","content":"a[b]c"}]GARBAGE''\<close>

text \<open>
  The same payload as it stands in a log line, where the marker ends with the opening bracket
  of the array.
\<close>

definition payload_after_marker :: string where
  \<open>payload_after_marker = ''{"role":"user","content":"a[b]c"}]GARBAGE''\<close>

section \<open>Auxiliary facts\<close>

subsection \<open>The segmenter\<close>

lemma block_end_le: "j \<le> length lines \<Longrightarrow> block_end lines j \<le> length lines"
proof (induction lines j rule: block_end.induct)
  case (1 lines j)
  show ?case
  proof (cases "j < length lines \<and> \<not> re_match timestamp_pattern (lines ! j)")
    case True
    with 1 have "block_end lines (j + 1) \<le> length lines" by simp
    with True show ?thesis by (subst block_end.simps) simp
  next
    case False
    with 1 show ?thesis by (subst block_end.simps) auto
  qed
qed

lemma re_match_append: "re_match (ps @ qs) s \<Longrightarrow> re_match ps s"
  by (induction ps s rule: re_match.induct) auto

lemma timestamp_match_pattern: "timestamp_match line = Some ts \<Longrightarrow> re_match timestamp_pattern line"
  by (auto simp: timestamp_match_def timestamp_ms_pattern_def dest: re_match_append split: if_splits)

lemma block_end_takeWhile:
  "j \<le> length lines \<Longrightarrow>
     block_end lines j = j + length (takeWhile (\<lambda>l. \<not> re_match timestamp_pattern l) (drop j lines))"
proof (induction lines j rule: block_end.induct)
  case (1 lines j)
  show ?case
  proof (cases "j < length lines")
    case True
    then have d: "drop j lines = lines ! j # drop (j + 1) lines"
      by (simp add: Cons_nth_drop_Suc)
    show ?thesis
    proof (cases "re_match timestamp_pattern (lines ! j)")
      case True
      with \<open>j < length lines\<close> d show ?thesis by (subst block_end.simps) simp
    next
      case False
      with \<open>j < length lines\<close> 1 have "block_end lines (j + 1) =
        j + 1 + length (takeWhile (\<lambda>l. \<not> re_match timestamp_pattern l) (drop (j + 1) lines))"
        by simp
      with False \<open>j < length lines\<close> d show ?thesis by (subst block_end.simps) simp
    qed
  next
    case False
    with 1 show ?thesis by (subst block_end.simps) simp
  qed
qed

lemma block_lines_continuation:
  assumes "i < length lines"
  shows "block_lines lines i (block_end lines (i + 1)) = lines ! i # continuation lines i"
proof -
  from assms have "block_end lines (i + 1) = i + 1 + length (continuation lines i)"
    by (simp add: block_end_takeWhile continuation_def)
  then show ?thesis
    by (simp add: block_lines_def continuation_def takeWhile_eq_take [symmetric])
qed

lemma continuation_no_start:
  assumes "i < k" and "k < i + 1 + length (continuation lines i)"
  shows "\<not> starts_block (lines ! k)"
proof -
  let ?P = "\<lambda>l. \<not> re_match timestamp_pattern l"
  let ?tw = "continuation lines i"
  from assms have k: "k - (i + 1) < length ?tw" by simp
  have "length ?tw \<le> length (drop (i + 1) lines)"
    unfolding continuation_def by (rule length_takeWhile_le)
  with k have kl: "k < length lines" by simp
  have "?tw ! (k - (i + 1)) = drop (i + 1) lines ! (k - (i + 1))"
    using k unfolding continuation_def by (rule takeWhile_nth)
  also have "\<dots> = lines ! k" using assms kl by simp
  finally have "lines ! k \<in> set ?tw" using k by (metis nth_mem)
  then have "?P (lines ! k)" unfolding continuation_def by (rule set_takeWhileD [THEN conjunct2])
  then have "timestamp_match (lines ! k) = None"
    using timestamp_match_pattern [of "lines ! k"] by (cases "timestamp_match (lines ! k)") auto
  then show ?thesis by (simp add: starts_block_def)
qed

lemma collect_line_numbers:
  "map b_line_number (collect_history_blocks L lines i) =
     filter (\<lambda>k. starts_block (lines ! k)) [i..<length lines]"
proof (induction L lines i rule: collect_history_blocks.induct)
  case (1 L lines i)
  show ?case
  proof (cases "i < length lines")
    case False
    then show ?thesis by (subst collect_history_blocks.simps) simp
  next
    case True
    then have up: "[i..<length lines] = i # [i + 1..<length lines]"
      by (simp add: upt_conv_Cons)
    show ?thesis
    proof (cases "starts_block (lines ! i)")
      case False
      with True 1 have "map b_line_number (collect_history_blocks L lines (i + 1)) =
          filter (\<lambda>k. starts_block (lines ! k)) [i + 1..<length lines]"
        by (auto simp: starts_block_def)
      with False True up show ?thesis
        by (subst collect_history_blocks.simps) (auto simp: starts_block_def Let_def)
    next
      case sb: True
      then obtain ts where ts: "timestamp_match (lines ! i) = Some ts"
        and mk: "contains (lines ! i) history_marker_text"
        by (auto simp: starts_block_def)
      let ?j = "block_end lines (i + 1)"
      have j: "?j = i + 1 + length (continuation lines i)"
        using True by (simp add: block_end_takeWhile continuation_def)
      have jl: "?j \<le> length lines"
        using True by (simp add: block_end_le)
      have IH: "map b_line_number (collect_history_blocks L lines ?j) =
          filter (\<lambda>k. starts_block (lines ! k)) [?j..<length lines]"
        using 1(2) True mk ts by simp
      have "[i + 1..<length lines] = [i + 1..<?j] @ [?j..<length lines]"
      proof -
        from jl obtain d where d: "length lines = ?j + d" by (auto simp: le_iff_add)
        have "i + 1 \<le> ?j" using j by simp
        then show ?thesis unfolding d by (rule upt_add_eq_append)
      qed
      moreover have "filter (\<lambda>k. starts_block (lines ! k)) [i + 1..<?j] = []"
      proof -
        have "\<not> starts_block (lines ! k)" if "k \<in> set [i + 1..<?j]" for k
          using that j by (intro continuation_no_start [of i k lines]) auto
        then show ?thesis by (simp add: filter_empty_conv)
      qed
      ultimately have "filter (\<lambda>k. starts_block (lines ! k)) [i..<length lines]
          = i # filter (\<lambda>k. starts_block (lines ! k)) [?j..<length lines]"
        using up sb by simp
      with IH True ts mk show ?thesis
        by (subst collect_history_blocks.simps) (simp add: Let_def)
    qed
  qed
qed

subsection \<open>The bracket scan\<close>

declare scan_brackets.simps [simp del]

lemma depth_from_Nil: "depth_from i e [] = 0"
  by (simp add: depth_from_def)

lemma depth_from_Cons:
  "depth_from i e (c # cs) =
     (if i then
        (if e then depth_from True False cs
         else if c = backslash then depth_from True True cs
         else if c = dquote then depth_from False False cs
         else depth_from True False cs)
      else (if c = dquote then depth_from True False cs
            else (if c = CHR ''['' then 1 else if c = CHR '']'' then - 1 else 0)
                 + depth_from False False cs))"
  by (simp add: depth_from_def)

lemma scan_brackets_spec:
  assumes "1 \<le> cnt" and "esc \<longrightarrow> ins"
  shows "case scan_brackets r k ins esc cnt of
           None \<Rightarrow> (\<forall>m. 0 < m \<and> m \<le> length r \<longrightarrow> 1 \<le> cnt + depth_from ins esc (take m r))
         | Some e \<Rightarrow> k < e \<and> e \<le> k + length r \<and> cnt + depth_from ins esc (take (e - k) r) = 0
             \<and> (\<forall>m. 0 < m \<and> m < e - k \<longrightarrow> 1 \<le> cnt + depth_from ins esc (take m r))"
  using assms
proof (induction r arbitrary: k ins esc cnt)
  case Nil
  then show ?case by (simp add: scan_brackets.simps)
next
  case (Cons c cs)
  have tk: "take m (c # cs) = c # take (m - 1) cs" if "0 < m" for m
    using that by (cases m) auto
  have dq: "dquote \<noteq> CHR ''[''" "dquote \<noteq> CHR '']''" "backslash \<noteq> dquote"
    by (simp_all add: dquote_def backslash_def)
  \<comment> \<open>the step: the state after \<open>c\<close> and what \<open>c\<close> adds to the depth\<close>
  define ins' where "ins' = (if esc then ins else if c = backslash \<and> ins then ins
                             else if c = dquote then \<not> ins else ins)"
  define esc' where "esc' = (\<not> esc \<and> c = backslash \<and> ins)"
  define d :: int where "d = (if esc \<or> (c = backslash \<and> ins) \<or> ins' then 0
                               else if c = CHR ''['' then 1 else if c = CHR '']'' then - 1 else 0)"
  have step: "depth_from ins esc (c # t) = d + depth_from ins' esc' t" for t
    using Cons.prems(2) dq by (auto simp: depth_from_Cons ins'_def esc'_def d_def)
  have inv: "esc' \<longrightarrow> ins'" by (auto simp: ins'_def esc'_def)
  have stop: "scan_brackets (c # cs) k ins esc cnt = Some (k + 1)" if "cnt + d = 0"
    using that Cons.prems dq
    by (auto simp: scan_brackets.simps d_def ins'_def Let_def split: if_splits)
  have go: "scan_brackets (c # cs) k ins esc cnt = scan_brackets cs (k + 1) ins' esc' (cnt + d)"
    if "cnt + d \<noteq> 0"
    using that Cons.prems dq
    by (auto simp: scan_brackets.simps d_def ins'_def esc'_def Let_def split: if_splits)
  have dge: "- 1 \<le> d" by (simp add: d_def)
  show ?case
  proof (cases "cnt + d = 0")
    case True
    have "cnt + depth_from ins esc (take 1 (c # cs)) = 0"
      using True by (simp add: step depth_from_Nil)
    then show ?thesis by (simp add: stop [OF True])
  next
    case False
    with dge Cons.prems(1) have ge: "1 \<le> cnt + d" by simp
    note IH = Cons.IH [OF ge inv, of "k + 1"]
    have first: "1 \<le> cnt + depth_from ins esc (take 1 (c # cs))"
      using ge by (simp add: step depth_from_Nil)
    show ?thesis
    proof (cases "scan_brackets cs (k + 1) ins' esc' (cnt + d)")
      case None
      with IH have all: "\<forall>m. 0 < m \<and> m \<le> length cs
           \<longrightarrow> 1 \<le> cnt + d + depth_from ins' esc' (take m cs)" by simp
      have "1 \<le> cnt + depth_from ins esc (take m (c # cs))" if "0 < m" "m \<le> length (c # cs)" for m
      proof (cases "m = 1")
        case True
        with first show ?thesis by simp
      next
        case False
        with that have "0 < m - 1" "m - 1 \<le> length cs" by auto
        with all have "1 \<le> cnt + d + depth_from ins' esc' (take (m - 1) cs)" by blast
        then show ?thesis using that by (simp add: tk step)
      qed
      with None show ?thesis by (simp add: go [OF False])
    next
      case (Some e)
      with IH have e: "k + 1 < e" "e \<le> k + 1 + length cs"
        "cnt + d + depth_from ins' esc' (take (e - (k + 1)) cs) = 0"
        and all: "\<forall>m. 0 < m \<and> m < e - (k + 1)
           \<longrightarrow> 1 \<le> cnt + d + depth_from ins' esc' (take m cs)" by simp_all
      have z: "cnt + depth_from ins esc (take (e - k) (c # cs)) = 0"
      proof -
        from e(1) have "0 < e - k" by simp
        from tk [OF this] have "take (e - k) (c # cs) = c # take (e - (k + 1)) cs" by simp
        with e(3) show ?thesis by (simp add: step)
      qed
      have "1 \<le> cnt + depth_from ins esc (take m (c # cs))" if "0 < m" "m < e - k" for m
      proof (cases "m = 1")
        case True
        with first show ?thesis by simp
      next
        case False
        with that have "0 < m - 1" "m - 1 < e - (k + 1)" by auto
        with all have "1 \<le> cnt + d + depth_from ins' esc' (take (m - 1) cs)" by blast
        then show ?thesis using that by (simp add: tk step)
      qed
      with Some e z show ?thesis by (simp add: go [OF False])
    qed
  qed
qed

lemma json_end_spec:
  assumes "startswith s ''[''"
  shows "if \<exists>n. balanced_at s n
         then balanced_at s (json_end s) \<and> (\<forall>n. balanced_at s n \<longrightarrow> json_end s \<le> n)
         else json_end s = length s"
proof -
  from assms obtain cs where s: "s = CHR ''['' # cs"
    by (cases s) (auto simp: startswith_def)
  have dq: "dquote \<noteq> CHR ''[''" "backslash \<noteq> CHR ''[''"
    by (simp_all add: dquote_def backslash_def)
  have first: "scan_brackets s 0 False False 0 = scan_brackets cs 1 False False 1"
    using dq by (simp add: s scan_brackets.simps Let_def)
  have bd: "bracket_depth (take n s) = 1 + depth_from False False (take (n - 1) cs)" if "0 < n" for n
    using that dq by (cases n) (auto simp: s bracket_depth_def depth_from_Cons)
  note spec = scan_brackets_spec [of 1 False False cs 1]
  show ?thesis
  proof (cases "scan_brackets cs 1 False False 1")
    case None
    with spec have all: "\<forall>m. 0 < m \<and> m \<le> length cs \<longrightarrow> 1 \<le> 1 + depth_from False False (take m cs)"
      by simp
    have "\<not> balanced_at s n" for n
    proof (cases "n \<le> 1")
      case True
      then show ?thesis using bd [of n] by (cases "n = 0") (auto simp: balanced_at_def depth_from_Nil)
    next
      case False
      show ?thesis
      proof
        assume b: "balanced_at s n"
        with False have "0 < n - 1" "n - 1 \<le> length cs" by (auto simp: balanced_at_def s)
        with all have "1 \<le> 1 + depth_from False False (take (n - 1) cs)" by blast
        with b bd [of n] show False by (simp add: balanced_at_def)
      qed
    qed
    moreover have "json_end s = length s" unfolding json_end_def first None by simp
    ultimately show ?thesis by simp
  next
    case (Some e)
    with spec have e: "1 < e" "e \<le> 1 + length cs"
      "1 + depth_from False False (take (e - 1) cs) = 0"
      and all: "\<forall>m. 0 < m \<and> m < e - 1 \<longrightarrow> 1 \<le> 1 + depth_from False False (take m cs)"
      by simp_all
    have je: "json_end s = e" unfolding json_end_def first Some by simp
    have bal: "balanced_at s e" using e bd [of e] by (simp add: balanced_at_def s)
    have "e \<le> n" if b: "balanced_at s n" for n
    proof (rule ccontr)
      assume "\<not> e \<le> n"
      then have lt: "n < e" by simp
      show False
      proof (cases "n \<le> 1")
        case True
        with b bd [of n] show False by (cases "n = 0") (auto simp: balanced_at_def depth_from_Nil)
      next
        case False
        with lt have "0 < n - 1" "n - 1 < e - 1" by auto
        with all have "1 \<le> 1 + depth_from False False (take (n - 1) cs)" by blast
        with b bd [of n] show False by (simp add: balanced_at_def)
      qed
    qed
    with bal je show ?thesis by auto
  qed
qed

subsection \<open>The reconstruction loop\<close>

lemma build_messages_user_message:
  "build_messages L E bs ts turns i ums = Inr ms \<Longrightarrow> map user_message ms = ums"
  by (induction ums arbitrary: i ms) (auto split: sum.splits)

lemma build_messages_length:
  "build_messages L E bs ts turns i ums = Inr ms \<Longrightarrow> length ms = length ums"
  using build_messages_user_message [of L E bs ts turns i ums ms] by (metis length_map)

lemma process_block_cases:
  assumes "process_block L E bs found b = Inr found'"
  shows "found' = found \<or>
    (\<exists>data turns u us msgs.
       decode_block L (b_content b) = Some data \<and> iterate data = Inr turns \<and>
       user_messages_of turns = Inr (u # us) \<and> \<not> is_subset (u # us) found \<and>
       build_messages L E bs (b_timestamp b) turns 0 (u # us) = Inr msgs \<and>
       found' = found @
         [\<lparr>f_user_messages = u # us,
           f_conversation =
             \<lparr>chat_id = conversation_id L found (b_timestamp b), first_message = u,
                start_time = b_timestamp b, message_count = length (u # us), messages = msgs\<rparr>,
           f_timestamp = b_timestamp b\<rparr>])"
  using assms
  by (auto simp: process_block_def Let_def simp del: build_messages.simps
        split: option.splits sum.splits list.splits if_splits)

lemma process_blocks_all:
  assumes "process_blocks L E bs found bs' = Inr found'"
    and "\<forall>f\<in>set found. Q f"
    and "\<forall>fs b fs'. b \<in> set bs' \<longrightarrow> process_block L E bs fs b = Inr fs'
           \<longrightarrow> (\<forall>f\<in>set fs'. f \<in> set fs \<or> Q f)"
  shows "\<forall>f\<in>set found'. Q f"
  using assms
proof (induction bs' arbitrary: found)
  case Nil
  then show ?case by simp
next
  case (Cons b bs')
  from Cons.prems(1) obtain found1 where
    1: "process_block L E bs found b = Inr found1" and
    2: "process_blocks L E bs found1 bs' = Inr found'"
    by (auto split: sum.splits)
  from Cons.prems(3) 1 have "\<forall>f\<in>set found1. f \<in> set found \<or> Q f"
    by (meson list.set_intros(1))
  with Cons.prems(2) have 3: "\<forall>f\<in>set found1. Q f" by blast
  from Cons.prems(3) have 4: "\<forall>fs b fs'. b \<in> set bs' \<longrightarrow> process_block L E bs fs b = Inr fs'
           \<longrightarrow> (\<forall>f\<in>set fs'. f \<in> set fs \<or> Q f)"
    by (meson list.set_intros(2))
  show ?case by (rule Cons.IH [OF 2 3 4])
qed

lemma number_conversations_set:
  "(cid, c) \<in> set (number_conversations fs) \<Longrightarrow> \<exists>f\<in>set fs. c = f_conversation f"
  by (auto simp: number_conversations_def in_set_enumerate_eq)

lemma analyze_logfile_all:
  assumes res: "analyze_logfile L E content = Inr convs"
    and mem: "(cid, c) \<in> set convs"
    and step: "\<forall>fs b fs'. b \<in> set (collect_history_blocks L (split_lines content) 0) \<longrightarrow>
       process_block L E (sort_newest_first (collect_history_blocks L (split_lines content) 0)) fs b
         = Inr fs' \<longrightarrow> (\<forall>f\<in>set fs'. f \<in> set fs \<or> Q f)"
  shows "\<exists>f. Q f \<and> c = f_conversation f"
proof -
  define hb where "hb = sort_newest_first (collect_history_blocks L (split_lines content) 0)"
  from res obtain found where
    run: "process_blocks L E hb [] hb = Inr found" and
    convs: "convs = number_conversations (sort_key f_timestamp found)"
    by (auto simp: analyze_logfile_def Let_def hb_def split: sum.splits)
  have sethb: "set hb = set (collect_history_blocks L (split_lines content) 0)"
    by (simp add: hb_def sort_newest_first_def)
  have "\<forall>f\<in>set found. Q f"
  proof (rule process_blocks_all [OF run])
    show "\<forall>f\<in>set []. Q f" by simp
    show "\<forall>fs b fs'. b \<in> set hb \<longrightarrow> process_block L E hb fs b = Inr fs'
           \<longrightarrow> (\<forall>f\<in>set fs'. f \<in> set fs \<or> Q f)"
      using step by (simp add: hb_def sort_newest_first_def)
  qed
  moreover from mem convs obtain f where "f \<in> set found" "c = f_conversation f"
    using number_conversations_set [of cid c "sort_key f_timestamp found"] by auto
  ultimately show ?thesis by blast
qed

lemma analyze_logfile_conversation:
  fixes L :: "('t::linorder) pylib"
  assumes res: "analyze_logfile L E content = Inr convs"
    and mem: "(cid, c) \<in> set convs"
  shows "\<exists>b data turns ums msgs fs.
       b \<in> set (collect_history_blocks L (split_lines content) 0) \<and>
       decode_block L (b_content b) = Some data \<and> iterate data = Inr turns \<and>
       user_messages_of turns = Inr ums \<and> ums \<noteq> [] \<and>
       build_messages L E (sort_newest_first (collect_history_blocks L (split_lines content) 0))
         (b_timestamp b) turns 0 ums = Inr msgs \<and>
       c = \<lparr>chat_id = conversation_id L fs (b_timestamp b), first_message = hd ums,
            start_time = b_timestamp b, message_count = length ums, messages = msgs\<rparr>"
proof -
  let ?bs = "collect_history_blocks L (split_lines content) 0"
  let ?Q = "\<lambda>f :: 't found_conversation. \<exists>b data turns ums msgs fs.
       b \<in> set ?bs \<and>
       decode_block L (b_content b) = Some data \<and> iterate data = Inr turns \<and>
       user_messages_of turns = Inr ums \<and> ums \<noteq> [] \<and>
       build_messages L E (sort_newest_first ?bs) (b_timestamp b) turns 0 ums = Inr msgs \<and>
       f_conversation f = \<lparr>chat_id = conversation_id L fs (b_timestamp b), first_message = hd ums,
            start_time = b_timestamp b, message_count = length ums, messages = msgs\<rparr>"
  have "\<exists>f. ?Q f \<and> c = f_conversation f"
  proof (rule analyze_logfile_all [where Q = ?Q, OF assms], intro allI impI)
    fix fs :: "'t found_conversation list" and b fs'
    assume b: "b \<in> set ?bs"
      and pb: "process_block L E (sort_newest_first ?bs) fs b = Inr fs'"
    from process_block_cases [OF pb] show "\<forall>f\<in>set fs'. f \<in> set fs \<or> ?Q f"
    proof (elim disjE exE conjE)
      assume "fs' = fs"
      then show ?thesis by simp
    next
      fix data turns u us msgs
      assume "decode_block L (b_content b) = Some data" "iterate data = Inr turns"
        "user_messages_of turns = Inr (u # us)"
        "build_messages L E (sort_newest_first ?bs) (b_timestamp b) turns 0 (u # us) = Inr msgs"
        and fs': "fs' = fs @
         [\<lparr>f_user_messages = u # us,
           f_conversation =
             \<lparr>chat_id = conversation_id L fs (b_timestamp b), first_message = u,
                start_time = b_timestamp b, message_count = length (u # us), messages = msgs\<rparr>,
           f_timestamp = b_timestamp b\<rparr>]"
      with b have "?Q (last fs')"
        by (intro exI [of _ b] exI [of _ data] exI [of _ turns] exI [of _ "u # us"]
              exI [of _ msgs] exI [of _ fs]) simp
      with fs' show ?thesis by auto
    qed
  qed
  then show ?thesis by metis
qed

lemma find_context_docs_find:
  "find_context_docs L E bs position u = Inr docs \<Longrightarrow>
     docs = (case List.find (is_context_block L position u) bs of
               None \<Rightarrow> [] | Some b \<Rightarrow> E (b_content b))"
proof (induction bs)
  case Nil
  then show ?case by simp
next
  case (Cons b bs)
  show ?case
  proof (cases "is_context_block L position u b")
    case True
    with Cons.prems show ?thesis
      by (auto simp: is_context_block_def block_user_messages_def Let_def
            split: option.splits sum.splits if_splits)
  next
    case False
    with Cons.prems have "find_context_docs L E bs position u = Inr docs"
      by (auto simp: is_context_block_def block_user_messages_def Let_def
            split: option.splits sum.splits if_splits)
    with Cons.IH False show ?thesis by simp
  qed
qed

lemma build_messages_context:
  "build_messages L E bs ts turns i ums = Inr ms \<Longrightarrow> k < length ms \<Longrightarrow>
     find_context_docs L E bs (i + k + 1) (user_message (ms ! k)) = Inr (context_documents (ms ! k))"
proof (induction ums arbitrary: i ms k)
  case Nil
  then show ?case by simp
next
  case (Cons u us)
  from Cons.prems(1) obtain r d ms' where
    d: "find_context_docs L E bs (i + 1) u = Inr d" and
    rest: "build_messages L E bs ts turns (i + 1) us = Inr ms'" and
    ms: "ms = \<lparr>timestamp = ts, user_message = u, claude_response = r, context_documents = d\<rparr> # ms'"
    by (auto split: sum.splits)
  show ?case
  proof (cases k)
    case 0
    with d ms show ?thesis by simp
  next
    case (Suc k')
    with Cons.prems(2) ms have "k' < length ms'" by simp
    from Cons.IH [OF rest this] Suc ms show ?thesis by simp
  qed
qed

lemma find_newest:
  fixes f :: "'a \<Rightarrow> 'k::linorder"
  assumes "List.find P xs = Some b" and "sorted (rev (map f xs))" and "b' \<in> set xs" and "P b'"
  shows "f b' \<le> f b"
  using assms
proof (induction xs)
  case Nil
  then show ?case by simp
next
  case (Cons x xs)
  from Cons.prems(2) have desc: "\<forall>y\<in>set xs. f y \<le> f x" and srt: "sorted (rev (map f xs))"
    by (auto simp: sorted_append)
  show ?case
  proof (cases "P x")
    case True
    with Cons.prems(1) have "b = x" by simp
    with Cons.prems(3) desc show ?thesis by auto
  next
    case False
    with Cons.prems have "List.find P xs = Some b" "b' \<in> set xs" by auto
    with Cons.IH srt Cons.prems(4) show ?thesis by blast
  qed
qed

lemma sort_newest_first_descending:
  "sorted (rev (map b_timestamp (sort_newest_first bs)))"
  by (simp add: sort_newest_first_def rev_map [symmetric])

lemma is_subset_claimed_prefix: "is_subset ums found = claimed_prefix ums found"
  by (simp add: is_subset_def claimed_prefix_def list_ex_iff)

lemma claimed_prefix_prefix:
  "claimed_prefix ums found = (\<exists>f\<in>set found. prefix ums (f_user_messages f))"
  unfolding claimed_prefix_def
  by (metis prefix_def append_take_drop_id prefix_length_le append_eq_conv_conj)

lemma process_block_decoded:
  assumes "block_user_messages L (b_content b) = Some (Inr ums)" and "ums \<noteq> []"
    and "process_block L E bs found b = Inr found'"
  shows "(claimed_prefix ums found \<longrightarrow> found' = found) \<and>
         (\<not> claimed_prefix ums found \<longrightarrow> (\<exists>f. found' = found @ [f] \<and> f_user_messages f = ums))"
  using assms
  by (auto simp: process_block_def block_user_messages_def Let_def is_subset_claimed_prefix
        simp del: build_messages.simps
        split: option.splits sum.splits list.splits if_splits)

lemma process_block_empty:
  assumes "block_user_messages L (b_content b) = Some (Inr [])"
  shows "process_block L E bs found b = Inr found"
  using assms
  by (auto simp: process_block_def block_user_messages_def Let_def
        split: option.splits sum.splits)

lemma process_block_undecoded:
  assumes "block_user_messages L (b_content b) = None"
  shows "process_block L E bs found b = Inr found"
  using assms
  by (auto simp: process_block_def block_user_messages_def Let_def split: option.splits)

lemma process_block_grows:
  assumes "process_block L E bs found b = Inr found'"
  shows "set found \<subseteq> set found'"
  using process_block_cases [OF assms] by auto

lemma process_blocks_grows:
  "process_blocks L E bs found bs' = Inr found' \<Longrightarrow> set found \<subseteq> set found'"
proof (induction bs' arbitrary: found)
  case Nil
  then show ?case by simp
next
  case (Cons b bs')
  from Cons.prems obtain found1 where
    1: "process_block L E bs found b = Inr found1" and
    2: "process_blocks L E bs found1 bs' = Inr found'"
    by (auto split: sum.splits)
  from process_block_grows [OF 1] Cons.IH [OF 2] show ?case by blast
qed

lemma process_blocks_append:
  "process_blocks L E bs found (xs @ ys) =
     (case process_blocks L E bs found xs of Inl e \<Rightarrow> Inl e
      | Inr found1 \<Rightarrow> process_blocks L E bs found1 ys)"
  by (induction xs arbitrary: found) (auto split: sum.splits)

lemma later_prefix_discarded:
  assumes run: "process_blocks L E bs found (pre @ b # mid) = Inr found1"
    and b: "block_user_messages L (b_content b) = Some (Inr ums)"
    and b': "block_user_messages L (b_content b') = Some (Inr ums')"
    and pre: "prefix ums' ums"
  shows "process_block L E bs found1 b' = Inr found1"
proof (cases "ums' = []")
  case True
  with b' show ?thesis by (simp add: process_block_empty)
next
  case False
  with pre have ne: "ums \<noteq> []" by auto
  from run obtain f0 f0' where
    0: "process_blocks L E bs found pre = Inr f0" and
    1: "process_block L E bs f0 b = Inr f0'" and
    2: "process_blocks L E bs f0' mid = Inr found1"
    by (auto simp: process_blocks_append split: sum.splits)
  from process_block_decoded [OF b ne 1] have "claimed_prefix ums f0'"
    by (cases "claimed_prefix ums f0") (auto simp: claimed_prefix_def)
  with process_blocks_grows [OF 2] have "claimed_prefix ums found1"
    by (auto simp: claimed_prefix_def)
  with pre have cp: "claimed_prefix ums' found1"
    unfolding claimed_prefix_prefix by (meson prefix_order.trans)
  from b' False cp show ?thesis
    by (auto simp: process_block_def block_user_messages_def Let_def is_subset_claimed_prefix
        simp del: build_messages.simps
        split: option.splits sum.splits list.splits if_splits)
qed

lemma sort_newest_first_three:
  fixes b1 :: "('t::linorder) history_block"
  assumes m: "mset hb = {#b1, b2, b3#}"
    and lt: "b_timestamp b1 < b_timestamp b2" "b_timestamp b2 < b_timestamp b3"
  shows "sort_newest_first hb = [b3, b2, b1]"
proof -
  from lt have lt13: "b_timestamp b1 < b_timestamp b3" by (rule less_trans)
  from lt lt13 have ne: "b_timestamp b1 \<noteq> b_timestamp b2" "b_timestamp b2 \<noteq> b_timestamp b1"
    "b_timestamp b1 \<noteq> b_timestamp b3" "b_timestamp b3 \<noteq> b_timestamp b1"
    "b_timestamp b2 \<noteq> b_timestamp b3" "b_timestamp b3 \<noteq> b_timestamp b2"
    by simp_all
  have three: "filter (\<lambda>x. b_timestamp k = b_timestamp x) [b1, b2, b3] = [k]"
    if "k = b1 \<or> k = b2 \<or> k = b3" for k
    using that by (elim disjE) (simp_all add: ne)
  have filt: "filter (\<lambda>x. b_timestamp k = b_timestamp x) (rev hb) = [k]"
    if k: "k = b1 \<or> k = b2 \<or> k = b3" for k
  proof -
    have "mset (filter (\<lambda>x. b_timestamp k = b_timestamp x) (rev hb))
        = mset (filter (\<lambda>x. b_timestamp k = b_timestamp x) [b1, b2, b3])"
      by (simp only: mset_filter mset_rev m) simp
    also have "\<dots> = {#k#}" by (simp only: three [OF k]) simp
    finally show ?thesis by (metis mset_single_iff_right)
  qed
  have "sort_key b_timestamp (rev hb) = [b1, b2, b3]"
  proof (rule properties_for_sort_key)
    show "mset [b1, b2, b3] = mset (rev hb)" by (simp add: m)
    from lt lt13 show "sorted (map b_timestamp [b1, b2, b3])" by (simp add: less_imp_le)
    fix k assume "k \<in> set [b1, b2, b3]"
    then have k: "k = b1 \<or> k = b2 \<or> k = b3" by simp
    show "filter (\<lambda>x. b_timestamp k = b_timestamp x) [b1, b2, b3]
        = filter (\<lambda>x. b_timestamp k = b_timestamp x) (rev hb)"
      by (simp only: three [OF k] filt [OF k])
  qed
  then show ?thesis by (simp add: sort_newest_first_def)
qed

lemma collect_block_fields:
  "b \<in> set (collect_history_blocks L lines i) \<Longrightarrow>
     i \<le> b_line_number b \<and> b_line_number b < length lines
     \<and> timestamp_match (lines ! b_line_number b) = Some (b_timestamp_str b)
     \<and> b_timestamp b = parse_timestamp L (now L (b_line_number b)) (b_timestamp_str b)
     \<and> b_content b = join_lines (lines ! b_line_number b # continuation lines (b_line_number b))"
proof (induction L lines i rule: collect_history_blocks.induct)
  case (1 L lines i)
  show ?case
  proof (cases "i < length lines")
    case False
    with "1.prems" show ?thesis by (subst (asm) collect_history_blocks.simps) simp
  next
    case True
    show ?thesis
    proof (cases "starts_block (lines ! i)")
      case False
      with True "1.prems" have "b \<in> set (collect_history_blocks L lines (i + 1))"
        by (subst (asm) collect_history_blocks.simps)
           (auto simp: starts_block_def Let_def split: option.splits if_splits)
      with "1.IH"(1,3) True False have "i + 1 \<le> b_line_number b \<and> b_line_number b < length lines
        \<and> timestamp_match (lines ! b_line_number b) = Some (b_timestamp_str b)
        \<and> b_timestamp b = parse_timestamp L (now L (b_line_number b)) (b_timestamp_str b)
        \<and> b_content b = join_lines (lines ! b_line_number b # continuation lines (b_line_number b))"
        by (auto simp: starts_block_def)
      then show ?thesis by simp
    next
      case sb: True
      then obtain ts where ts: "timestamp_match (lines ! i) = Some ts"
        and mk: "contains (lines ! i) history_marker_text"
        by (auto simp: starts_block_def)
      let ?j = "block_end lines (i + 1)"
      let ?b = "\<lparr>b_timestamp = parse_timestamp L (now L i) ts, b_timestamp_str = ts,
                 b_content = join_lines (block_lines lines i ?j), b_line_number = i\<rparr>"
      from "1.prems" True ts mk have mem: "b = ?b \<or> b \<in> set (collect_history_blocks L lines ?j)"
        by (subst (asm) collect_history_blocks.simps) (simp add: Let_def)
      have ij: "i + 1 \<le> ?j" using True by (simp add: block_end_takeWhile)
      from mem show ?thesis
      proof
        assume "b = ?b"
        with True ts block_lines_continuation [OF True] show ?thesis by simp
      next
        assume "b \<in> set (collect_history_blocks L lines ?j)"
        with "1.IH"(2) True mk ts have "?j \<le> b_line_number b \<and> b_line_number b < length lines
          \<and> timestamp_match (lines ! b_line_number b) = Some (b_timestamp_str b)
          \<and> b_timestamp b = parse_timestamp L (now L (b_line_number b)) (b_timestamp_str b)
          \<and> b_content b = join_lines (lines ! b_line_number b # continuation lines (b_line_number b))"
          by simp
        with ij show ?thesis by simp
      qed
    qed
  qed
qed

subsection \<open>The worked inputs, evaluated\<close>

lemma three_snapshots_blocks:
  "collect_history_blocks sample_lib (split_lines log_three_snapshots) 0
     = [block_hi_at_0, block_hi_bye_at_5, block_hi_bye_at_9]"
  by code_simp

lemma three_snapshots_sorted:
  "sort_newest_first [block_hi_at_0, block_hi_bye_at_5, block_hi_bye_at_9]
     = [block_hi_bye_at_9, block_hi_bye_at_5, block_hi_at_0]"
  by code_simp

lemma three_snapshots_run:
  "analyze_logfile sample_lib sample_extract log_three_snapshots
     = Inr [(''conversation_1'', three_snapshots_conversation)]"
  by code_simp

lemma three_snapshots_decoded:
  "decode_block sample_lib (b_content block_hi_at_0) = Some (JArr [turn ''user'' ''hi''])"
  "decode_block sample_lib (b_content block_hi_bye_at_5)
     = Some (JArr [turn ''user'' ''hi'', turn ''assistant'' ''hello'', turn ''user'' ''bye''])"
  "decode_block sample_lib (b_content block_hi_bye_at_9)
     = Some (JArr [turn ''user'' ''hi'', turn ''assistant'' ''hello'', turn ''user'' ''bye''])"
  by code_simp+

lemma three_snapshots_user_messages:
  "block_user_messages sample_lib (b_content block_hi_at_0) = Some (Inr [''hi''])"
  "block_user_messages sample_lib (b_content block_hi_bye_at_5) = Some (Inr [''hi'', ''bye''])"
  "block_user_messages sample_lib (b_content block_hi_bye_at_9) = Some (Inr [''hi'', ''bye''])"
  by code_simp+

lemma three_snapshots_first_block:
  "process_block sample_lib sample_extract
     [block_hi_bye_at_9, block_hi_bye_at_5, block_hi_at_0] [] block_hi_bye_at_9
     = Inr [three_snapshots_found]"
  by code_simp

lemma three_snapshots_two_blocks:
  "process_blocks sample_lib sample_extract
     [block_hi_bye_at_9, block_hi_bye_at_5, block_hi_at_0] []
     ([] @ block_hi_bye_at_9 # [block_hi_bye_at_5])
     = Inr [three_snapshots_found]"
  by code_simp

section \<open>The claims\<close>

text \<open>
  Claim C1, as the code has it. A log holds exactly three HISTORY blocks, with timestamps
  \<open>T1 < T2 < T3\<close>; the first decodes to one user turn "hi", the second to the turns user "hi",
  assistant "hello", user "bye", the third to the same turns as the second. Then
  \<^verbatim>\<open>analyze_logfile\<close> returns exactly one conversation, with \<open>message_count\<close> 2 and
  \<open>first_message\<close> "hi". Its \<open>start_time\<close> is \<open>T3\<close>, the timestamp of the newest block, which is
  the one that is claimed; the claim says \<open>T1\<close>.
\<close>

theorem three_snapshots_one_conversation:
  fixes L :: "('t::linorder) pylib"
  assumes blocks: "mset (collect_history_blocks L (split_lines content) 0) = {#b1, b2, b3#}"
    and order: "b_timestamp b1 < b_timestamp b2" "b_timestamp b2 < b_timestamp b3"
    and d1: "decode_block L (b_content b1) = Some (JArr [u1])"
    and d2: "decode_block L (b_content b2) = Some (JArr [u2, a2, v2])"
    and d3: "decode_block L (b_content b3) = Some (JArr [u2, a2, v2])"
    and turns: "is_turn u1 ''user'' ''hi''" "is_turn u2 ''user'' ''hi''"
      "is_turn a2 ''assistant'' ''hello''" "is_turn v2 ''user'' ''bye''"
  shows "\<exists>c. analyze_logfile L E content = Inr [(''conversation_1'', c)]
           \<and> message_count c = 2 \<and> first_message c = ''hi'' \<and> start_time c = b_timestamp b3"
proof -
  let ?hb = "[b3, b2, b1]"
  have hb: "sort_newest_first (collect_history_blocks L (split_lines content) 0) = ?hb"
    by (rule sort_newest_first_three [OF blocks order])
  have r: "role_is u1 ''user'' = Inr True" "role_is u2 ''user'' = Inr True"
    "role_is a2 ''user'' = Inr False" "role_is v2 ''user'' = Inr True"
    "role_is a2 ''assistant'' = Inr True"
    "content_of u1 = Inr ''hi''" "content_of u2 = Inr ''hi''"
    "content_of a2 = Inr ''hello''" "content_of v2 = Inr ''bye''"
    using turns by (simp_all add: is_turn_def role_is_def)
  have um1: "user_messages_of [u1] = Inr [''hi'']"
    and um2: "user_messages_of [u2, a2, v2] = Inr [''hi'', ''bye'']"
    by (simp_all add: r)
  have c1: "find_context_docs L E ?hb (Suc 0) ''hi'' = Inr (E (b_content b1))"
    by (simp add: d1 d2 d3 um1 um2 del: user_messages_of.simps)
  have c2: "find_context_docs L E ?hb (Suc (Suc 0)) ''bye'' = Inr (E (b_content b3))"
    by (simp add: d1 d2 d3 um1 um2 del: user_messages_of.simps)
  have r1: "find_claude_response [u2, a2, v2] ''hi'' = Inr ''hello''"
    by (simp add: r)
  have r2: "find_claude_response [u2, a2, v2] ''bye'' = Inr no_response"
    by (simp add: r)
  have bm: "build_messages L E ?hb (b_timestamp b3) [u2, a2, v2] 0 [''hi'', ''bye''] =
     Inr [\<lparr>timestamp = b_timestamp b3, user_message = ''hi'', claude_response = ''hello'',
            context_documents = E (b_content b1)\<rparr>,
          \<lparr>timestamp = b_timestamp b3, user_message = ''bye'', claude_response = no_response,
            context_documents = E (b_content b3)\<rparr>]"
    by (simp add: c1 c2 r1 r2 del: find_context_docs.simps find_claude_response.simps)
  let ?c = "\<lparr>chat_id = conversation_id L [] (b_timestamp b3), first_message = ''hi'',
              start_time = b_timestamp b3, message_count = 2,
              messages = [\<lparr>timestamp = b_timestamp b3, user_message = ''hi'', claude_response = ''hello'',
            context_documents = E (b_content b1)\<rparr>,
          \<lparr>timestamp = b_timestamp b3, user_message = ''bye'', claude_response = no_response,
            context_documents = E (b_content b3)\<rparr>]\<rparr>"
  let ?f = "\<lparr>f_user_messages = [''hi'', ''bye''], f_conversation = ?c, f_timestamp = b_timestamp b3\<rparr>"
  have p3: "process_block L E ?hb [] b3 = Inr [?f]"
    by (simp add: process_block_def d3 um2 bm is_subset_def Let_def numeral_2_eq_2
          del: build_messages.simps user_messages_of.simps)
  have p2: "process_block L E ?hb [?f] b2 = Inr [?f]"
    by (simp add: process_block_def d2 um2 is_subset_def Let_def
          del: build_messages.simps user_messages_of.simps)
  have p1: "process_block L E ?hb [?f] b1 = Inr [?f]"
    by (simp add: process_block_def d1 um1 is_subset_def Let_def
          del: build_messages.simps user_messages_of.simps)
  have run: "process_blocks L E ?hb [] ?hb = Inr [?f]"
    by (simp add: p3 p2 p1)
  have one: "str_of_nat (Suc 0) = ''1''" by code_simp
  have "analyze_logfile L E content = Inr [(''conversation_1'', ?c)]"
    by (simp add: analyze_logfile_def Let_def hb run number_conversations_def one
          del: str_of_nat.simps process_blocks.simps)
  then show ?thesis by simp
qed

text \<open>The three blocks of \<open>log_three_snapshots\<close> satisfy the hypotheses of C1.\<close>

theorem three_snapshots_one_conversation_witness:
  "b_timestamp block_hi_at_0 < b_timestamp block_hi_bye_at_5
   \<and> b_timestamp block_hi_bye_at_5 < b_timestamp block_hi_bye_at_9
   \<and> (\<exists>c. analyze_logfile sample_lib sample_extract log_three_snapshots
              = Inr [(''conversation_1'', c)]
         \<and> message_count c = 2 \<and> first_message c = ''hi'' \<and> start_time c = 9)"
proof -
  have blocks: "mset (collect_history_blocks sample_lib (split_lines log_three_snapshots) 0)
      = {#block_hi_at_0, block_hi_bye_at_5, block_hi_bye_at_9#}"
    by (simp add: three_snapshots_blocks)
  have o1: "b_timestamp block_hi_at_0 < b_timestamp block_hi_bye_at_5"
    and o2: "b_timestamp block_hi_bye_at_5 < b_timestamp block_hi_bye_at_9"
    and t9: "b_timestamp block_hi_bye_at_9 = 9"
    by (simp_all add: block_hi_at_0_def block_hi_bye_at_5_def block_hi_bye_at_9_def
          sample_block_def)
  have t: "is_turn (turn ''user'' ''hi'') ''user'' ''hi''"
    "is_turn (turn ''assistant'' ''hello'') ''assistant'' ''hello''"
    "is_turn (turn ''user'' ''bye'') ''user'' ''bye''"
    by code_simp+
  from three_snapshots_one_conversation [OF blocks o1 o2 three_snapshots_decoded t(1) t(1) t(2) t(3),
      of sample_extract]
  have "\<exists>c. analyze_logfile sample_lib sample_extract log_three_snapshots
              = Inr [(''conversation_1'', c)]
         \<and> message_count c = 2 \<and> first_message c = ''hi''
         \<and> start_time c = b_timestamp block_hi_bye_at_9" .
  with o1 o2 t9 show ?thesis by simp
qed

text \<open>
  On \<open>log_three_snapshots\<close> the timestamps are 0, 5 and 9 and the blocks decode as C1 asks;
  the one conversation starts at 9, not at 0.
\<close>

theorem start_time_not_oldest_counterexample:
  "map b_timestamp (collect_history_blocks sample_lib (split_lines log_three_snapshots) 0)
     = [0, 5, 9]
   \<and> map (decode_block sample_lib)
        (map b_content (collect_history_blocks sample_lib (split_lines log_three_snapshots) 0))
     = [Some (JArr [turn ''user'' ''hi'']),
        Some (JArr [turn ''user'' ''hi'', turn ''assistant'' ''hello'', turn ''user'' ''bye'']),
        Some (JArr [turn ''user'' ''hi'', turn ''assistant'' ''hello'', turn ''user'' ''bye''])]
   \<and> analyze_logfile sample_lib sample_extract log_three_snapshots
     = Inr [(''conversation_1'', three_snapshots_conversation)]
   \<and> start_time three_snapshots_conversation = 9
   \<and> start_time three_snapshots_conversation \<noteq> 0"
  by (intro conjI; code_simp)

text \<open>
  Claim C2, as the code has it. The blocks are processed in descending order of their
  timestamps. A block that decodes to at least one user message is discarded if and only if
  its list of user messages is no longer than the list of some conversation claimed so far
  and equals that list cut to its length; otherwise it is appended to the claimed
  conversations with its list. Consequently, of two decoded blocks, if the one processed later
  has a list that is a prefix of the list of the one processed earlier, the later one is
  discarded. A block that is left before or in \<^verbatim>\<open>json.loads\<close>, or that decodes to no user
  message, is discarded without the test. The claim says more: that of any two blocks whose
  lists stand in a prefix relation at most one is registered, and that nothing else is
  discarded.
\<close>

theorem prefix_discard:
  fixes L :: "('t::linorder) pylib"
  shows "sorted (rev (map b_timestamp (sort_newest_first hb)))
    \<and> mset (sort_newest_first hb) = mset hb
    \<and> (block_user_messages L (b_content b) = Some (Inr ums) \<and> ums \<noteq> []
         \<and> process_block L E bs found b = Inr found'
       \<longrightarrow> (found' = found) = claimed_prefix ums found
           \<and> (found' \<noteq> found \<longrightarrow> (\<exists>f. found' = found @ [f] \<and> f_user_messages f = ums)))
    \<and> (block_user_messages L (b_content b) = None
         \<or> block_user_messages L (b_content b) = Some (Inr [])
       \<longrightarrow> process_block L E bs found b = Inr found)
    \<and> (process_blocks L E bs found0 (pre @ b1 # mid) = Inr found1
         \<and> block_user_messages L (b_content b1) = Some (Inr ums1)
         \<and> block_user_messages L (b_content b2) = Some (Inr ums2)
         \<and> length ums2 \<le> length ums1 \<and> ums2 = take (length ums2) ums1
       \<longrightarrow> process_block L E bs found1 b2 = Inr found1)"
proof (intro conjI impI)
  show "sorted (rev (map b_timestamp (sort_newest_first hb)))"
    by (rule sort_newest_first_descending)
  show "mset (sort_newest_first hb) = mset hb"
    by (simp add: sort_newest_first_def)
next
  assume a: "block_user_messages L (b_content b) = Some (Inr ums) \<and> ums \<noteq> []
         \<and> process_block L E bs found b = Inr found'"
  then have d: "(claimed_prefix ums found \<longrightarrow> found' = found) \<and>
         (\<not> claimed_prefix ums found \<longrightarrow> (\<exists>f. found' = found @ [f] \<and> f_user_messages f = ums))"
    using process_block_decoded [of L b ums E bs found found'] by simp
  then show "(found' = found) = claimed_prefix ums found" by auto
  from d show "\<exists>f. found' = found @ [f] \<and> f_user_messages f = ums" if "found' \<noteq> found"
    using that by auto
next
  assume "block_user_messages L (b_content b) = None
         \<or> block_user_messages L (b_content b) = Some (Inr [])"
  then show "process_block L E bs found b = Inr found"
    by (auto intro: process_block_undecoded process_block_empty)
next
  assume a: "process_blocks L E bs found0 (pre @ b1 # mid) = Inr found1
         \<and> block_user_messages L (b_content b1) = Some (Inr ums1)
         \<and> block_user_messages L (b_content b2) = Some (Inr ums2)
         \<and> length ums2 \<le> length ums1 \<and> ums2 = take (length ums2) ums1"
  then have "prefix ums2 ums1" by (metis take_is_prefix)
  with a show "process_block L E bs found1 b2 = Inr found1"
    using later_prefix_discarded [of L E bs found0 pre b1 mid found1 ums1 b2 ums2] by simp
qed

text \<open>
  In \<open>log_three_snapshots\<close> the newest block is claimed, and the oldest block, whose list is a
  prefix, is discarded after it.
\<close>

theorem prefix_discard_witness:
  "block_user_messages sample_lib (b_content block_hi_bye_at_9) = Some (Inr [''hi'', ''bye''])
   \<and> process_block sample_lib sample_extract
        [block_hi_bye_at_9, block_hi_bye_at_5, block_hi_at_0] [] block_hi_bye_at_9
      = Inr [three_snapshots_found]
   \<and> \<not> claimed_prefix [''hi'', ''bye''] ([] :: nat found_conversation list)
   \<and> block_user_messages sample_lib (b_content block_hi_at_0) = Some (Inr [''hi''])
   \<and> process_block sample_lib sample_extract
        [block_hi_bye_at_9, block_hi_bye_at_5, block_hi_at_0] [three_snapshots_found]
        block_hi_at_0
      = Inr [three_snapshots_found]"
proof -
  let ?bs = "[block_hi_bye_at_9, block_hi_bye_at_5, block_hi_at_0]"
  note u = three_snapshots_user_messages
  note p = three_snapshots_first_block
  note r = three_snapshots_two_blocks
  note inst = prefix_discard [of ?bs sample_lib block_hi_bye_at_9 "[''hi'', ''bye'']"
      sample_extract ?bs "[]" "[three_snapshots_found]" "[]" "[]" block_hi_bye_at_9
      "[block_hi_bye_at_5]" "[three_snapshots_found]" "[''hi'', ''bye'']" block_hi_at_0 "[''hi'']"]
  from inst u(3) p have "\<not> claimed_prefix [''hi'', ''bye''] ([] :: nat found_conversation list)"
    by simp
  moreover from inst r u(1,3)
  have "process_block sample_lib sample_extract ?bs [three_snapshots_found] block_hi_at_0
      = Inr [three_snapshots_found]"
    by simp
  ultimately show ?thesis using u(1,3) p by simp
qed

text \<open>
  In \<open>log_newer_prefix\<close> the block without a user turn is discarded while no conversation is
  claimed, and both other blocks are registered, although the list of the newer one is a
  prefix of the list of the older one.
\<close>

theorem newer_prefix_counterexample:
  "map b_timestamp
     (sort_newest_first (collect_history_blocks sample_lib (split_lines log_newer_prefix) 0))
     = [9, 5, 0]
   \<and> map (block_user_messages sample_lib)
        (map b_content
          (sort_newest_first (collect_history_blocks sample_lib (split_lines log_newer_prefix) 0)))
     = [Some (Inr []), Some (Inr [''hi'']), Some (Inr [''hi'', ''bye''])]
   \<and> \<not> claimed_prefix [] ([] :: nat found_conversation list)
   \<and> process_block sample_lib sample_extract
        (sort_newest_first (collect_history_blocks sample_lib (split_lines log_newer_prefix) 0))
        [] block_system_at_9
     = Inr []
   \<and> analyze_logfile sample_lib sample_extract log_newer_prefix
     = Inr [(''conversation_1'', older_conversation), (''conversation_2'', newer_conversation)]"
  by (intro conjI; code_simp)

text \<open>
  Claim C3 says that the answer of the i-th message is the content of the first assistant
  turn after the i-th user turn. The search of the code leaves at the first user turn whose
  content equals the message, so when the user writes "ok" twice, with the answers "first"
  and "second", both messages carry "first".
\<close>

theorem repeated_message_answer:
  "map (decode_block sample_lib)
     (map b_content (collect_history_blocks sample_lib (split_lines log_ok_twice) 0))
     = [Some (JArr [turn ''user'' ''ok'', turn ''assistant'' ''first'', turn ''user'' ''ok'',
                    turn ''assistant'' ''second''])]
   \<and> analyze_logfile sample_lib sample_extract log_ok_twice
     = Inr [(''conversation_1'', ok_conversation)]
   \<and> map user_message (messages ok_conversation) = [''ok'', ''ok'']
   \<and> map claude_response (messages ok_conversation) = [''first'', ''first'']"
  by (intro conjI; code_simp)

text \<open>
  Claim C4. On a text that starts with an opening bracket, \<open>json_end\<close> is the first position,
  if there is one, where the depth of the square brackets outside string literals is back at
  zero, and the length of the text otherwise. The scan runs on the stripped payload when that
  starts with a bracket, and on the stripped payload behind a supplied bracket when it starts
  with a brace, which is how a payload stands behind the marker; any other payload gives
  nothing. Whatever \<open>json_str\<close> is returned is the scanned text up to the first position where
  the depth is back at zero, the rest being dropped, and the whole scanned text when there is
  no such position. For the payload of the example, in both spellings, it is the array,
  without the brackets in the quoted string being counted and without the trailer.
\<close>

theorem bracket_scan:
  \<open>(startswith json_part ''['' \<longrightarrow>
      (if \<exists>n. balanced_at json_part n
       then balanced_at json_part (json_end json_part)
            \<and> (\<forall>n. balanced_at json_part n \<longrightarrow> json_end json_part \<le> n)
       else json_end json_part = length json_part))
   \<and> (startswith (strip payload) ''['' \<longrightarrow>
        extract_json_str payload = Some (take (json_end (strip payload)) (strip payload)))
   \<and> extract_json_str ''[{"role":"user","content":"a[b]c"}]GARBAGE''
        = Some ''[{"role":"user","content":"a[b]c"}]''
   \<and> (startswith (strip payload) ''{'' \<longrightarrow>
        extract_json_str payload
          = Some (take (json_end (CHR ''['' # strip payload)) (CHR ''['' # strip payload)))
   \<and> (\<not> startswith (strip payload) ''['' \<and> \<not> startswith (strip payload) ''{'' \<longrightarrow>
        extract_json_str payload = None)
   \<and> (extract_json_str payload = Some json_str \<longrightarrow>
        (\<exists>scanned.
           (startswith (strip payload) ''['' \<and> scanned = strip payload
            \<or> startswith (strip payload) ''{'' \<and> scanned = CHR ''['' # strip payload)
           \<and> json_str = take (length json_str) scanned
           \<and> (if \<exists>n. balanced_at scanned n
                then balanced_at scanned (length json_str)
                     \<and> (\<forall>n. balanced_at scanned n \<longrightarrow> length json_str \<le> n)
                else json_str = scanned)))
   \<and> extract_json_str ''{"role":"user","content":"a[b]c"}]GARBAGE''
        = Some ''[{"role":"user","content":"a[b]c"}]''
   \<and> block_json_str
        ''2024-05-01 10:00:00,000 INFO [HISTORY][{"role":"user","content":"a[b]c"}]GARBAGE''
        = Some ''[{"role":"user","content":"a[b]c"}]''\<close>
proof -
  have cut: "json_str = take (length json_str) scanned
           \<and> (if \<exists>n. balanced_at scanned n
                then balanced_at scanned (length json_str)
                     \<and> (\<forall>n. balanced_at scanned n \<longrightarrow> length json_str \<le> n)
                else json_str = scanned)"
    if st: "startswith scanned ''[''" and js: "json_str = take (json_end scanned) scanned"
    for scanned json_str
  proof -
    note spec = json_end_spec [OF st]
    have le: "json_end scanned \<le> length scanned"
      using spec by (auto simp: balanced_at_def split: if_splits)
    then have len: "length json_str = json_end scanned" by (simp add: js)
    have tk: "json_str = take (length json_str) scanned"
      unfolding len by (rule js)
    show ?thesis
    proof (cases "\<exists>n. balanced_at scanned n")
      case True
      with spec have "balanced_at scanned (json_end scanned)
          \<and> (\<forall>n. balanced_at scanned n \<longrightarrow> json_end scanned \<le> n)"
        by (simp only: if_True) blast
      then have "balanced_at scanned (length json_str)
          \<and> (\<forall>n. balanced_at scanned n \<longrightarrow> length json_str \<le> n)"
        unfolding len by blast
      with True tk show ?thesis by simp
    next
      case False
      with spec have "json_end scanned = length scanned" by (simp only: if_False)
      with js have "json_str = scanned" by simp
      with False tk show ?thesis by simp
    qed
  qed
  have sq: "startswith (CHR ''['' # t) ''[''" for t
    by (simp add: startswith_def)
  have excl: "\<not> startswith t ''[''" if "startswith t ''{''" for t
    using that by (cases t) (auto simp: startswith_def)
  have bracket: "extract_json_str payload = Some (take (json_end (strip payload)) (strip payload))"
    if "startswith (strip payload) ''[''"
    using that by (simp add: extract_json_str_def Let_def)
  have brace: "extract_json_str payload
      = Some (take (json_end (CHR ''['' # strip payload)) (CHR ''['' # strip payload))"
    if "startswith (strip payload) ''{''"
    using that excl [OF that] by (simp add: extract_json_str_def Let_def)
  have neither: "extract_json_str payload = None"
    if "\<not> startswith (strip payload) ''['' \<and> \<not> startswith (strip payload) ''{''"
    using that by (simp add: extract_json_str_def Let_def)
  have returned: "\<exists>scanned.
           (startswith (strip payload) ''['' \<and> scanned = strip payload
            \<or> startswith (strip payload) ''{'' \<and> scanned = CHR ''['' # strip payload)
           \<and> json_str = take (length json_str) scanned
           \<and> (if \<exists>n. balanced_at scanned n
                then balanced_at scanned (length json_str)
                     \<and> (\<forall>n. balanced_at scanned n \<longrightarrow> length json_str \<le> n)
                else json_str = scanned)"
    if r: "extract_json_str payload = Some json_str"
  proof (cases "startswith (strip payload) ''[''")
    case True
    with r bracket have "json_str = take (json_end (strip payload)) (strip payload)" by simp
    from cut [OF True this] True show ?thesis by blast
  next
    case False
    with r neither have b: "startswith (strip payload) ''{''" by force
    with r brace have "json_str
        = take (json_end (CHR ''['' # strip payload)) (CHR ''['' # strip payload)" by simp
    from cut [OF sq this] b show ?thesis by blast
  qed
  have ex1: \<open>extract_json_str ''[{"role":"user","content":"a[b]c"}]GARBAGE''
        = Some ''[{"role":"user","content":"a[b]c"}]''\<close>
    by code_simp
  have ex2: \<open>extract_json_str ''{"role":"user","content":"a[b]c"}]GARBAGE''
        = Some ''[{"role":"user","content":"a[b]c"}]''\<close>
    by code_simp
  have ex3: \<open>block_json_str
        ''2024-05-01 10:00:00,000 INFO [HISTORY][{"role":"user","content":"a[b]c"}]GARBAGE''
        = Some ''[{"role":"user","content":"a[b]c"}]''\<close>
    by code_simp
  show ?thesis
    using json_end_spec [of json_part] bracket brace neither returned ex1 ex2 ex3
    by (intro conjI impI) blast+
qed

text \<open>
  In the example the depth is back at zero after 35 characters, also when the first bracket
  is the supplied one.
\<close>

theorem bracket_scan_witness:
  "startswith payload_with_trailer ''[''
   \<and> balanced_at payload_with_trailer 35
   \<and> balanced_at payload_with_trailer (json_end payload_with_trailer)
   \<and> json_end payload_with_trailer \<le> 35
   \<and> extract_json_str payload_with_trailer = Some (take 35 payload_with_trailer)
   \<and> startswith (strip payload_after_marker) ''{''
   \<and> json_end (CHR ''['' # strip payload_after_marker) = 35
   \<and> extract_json_str payload_after_marker
      = Some (take 35 (CHR ''['' # strip payload_after_marker))
   \<and> take 35 (CHR ''['' # strip payload_after_marker) = take 35 payload_with_trailer"
proof -
  have s: "startswith payload_with_trailer ''[''" by code_simp
  have b: "balanced_at payload_with_trailer 35" by code_simp
  have e: "extract_json_str payload_with_trailer = Some (take 35 payload_with_trailer)"
    by code_simp
  have s': "startswith (strip payload_after_marker) ''{''" by code_simp
  have j': "json_end (CHR ''['' # strip payload_after_marker) = 35" by code_simp
  have same: "take 35 (CHR ''['' # strip payload_after_marker) = take 35 payload_with_trailer"
    by code_simp
  from b have ex: "\<exists>n. balanced_at payload_with_trailer n" by blast
  from bracket_scan [of payload_with_trailer payload_with_trailer] s ex
  have 1: "balanced_at payload_with_trailer (json_end payload_with_trailer)
      \<and> (\<forall>n. balanced_at payload_with_trailer n \<longrightarrow> json_end payload_with_trailer \<le> n)"
    by simp
  from bracket_scan [of payload_with_trailer payload_after_marker] s'
  have "extract_json_str payload_after_marker
      = Some (take (json_end (CHR ''['' # strip payload_after_marker))
                (CHR ''['' # strip payload_after_marker))"
    by blast
  then have 2: "extract_json_str payload_after_marker
      = Some (take 35 (CHR ''['' # strip payload_after_marker))"
    by (simp only: j')
  from 1 b have 3: "json_end payload_with_trailer \<le> 35" by blast
  from 1 have 4: "balanced_at payload_with_trailer (json_end payload_with_trailer)" by blast
  from s b 4 3 e s' j' 2 same show ?thesis by (intro conjI)
qed

text \<open>
  Claim C5 says that a last user turn without an answer yields the message with the text of
  \<open>no_response\<close>. For the same reason as in C3, a last user turn "ok" that repeats an earlier,
  answered "ok" yields the earlier answer "first" instead.
\<close>

theorem repeated_message_no_sentinel:
  "map (decode_block sample_lib)
     (map b_content (collect_history_blocks sample_lib (split_lines log_ok_pending) 0))
     = [Some (JArr [turn ''user'' ''ok'', turn ''assistant'' ''first'', turn ''user'' ''ok''])]
   \<and> analyze_logfile sample_lib sample_extract log_ok_pending
     = Inr [(''conversation_1'', ok_conversation)]
   \<and> claude_response (last (messages ok_conversation)) = ''first''
   \<and> claude_response (last (messages ok_conversation)) \<noteq> no_response"
  by (intro conjI; code_simp)

text \<open>
  Claim C6. The blocks start exactly at the lines that carry the marker and begin with a
  timestamp with milliseconds, in the order of the file. The text of a block is its first
  line and the lines after it up to the first one that begins with a timestamp, joined by
  newlines; that is all lines to the end of the file when none begins with a timestamp. A
  line that starts no block leaves the scan to go on at the next line.
\<close>

theorem segmenter_blocks:
  "map b_line_number (collect_history_blocks L lines 0)
     = filter (\<lambda>i. starts_block (lines ! i)) [0..<length lines]
   \<and> (\<forall>b\<in>set (collect_history_blocks L lines 0).
        timestamp_match (lines ! b_line_number b) = Some (b_timestamp_str b)
        \<and> b_timestamp b = parse_timestamp L (now L (b_line_number b)) (b_timestamp_str b)
        \<and> b_content b = join_lines (lines ! b_line_number b # continuation lines (b_line_number b)))
   \<and> (\<forall>i. (\<forall>l\<in>set (drop (i + 1) lines). \<not> re_match timestamp_pattern l)
          \<longrightarrow> continuation lines i = drop (i + 1) lines)
   \<and> (\<forall>i. i < length lines \<and> \<not> starts_block (lines ! i)
          \<longrightarrow> collect_history_blocks L lines i = collect_history_blocks L lines (i + 1))"
proof (intro conjI allI impI ballI)
  show "map b_line_number (collect_history_blocks L lines 0)
     = filter (\<lambda>i. starts_block (lines ! i)) [0..<length lines]"
    by (rule collect_line_numbers)
next
  fix b assume b: "b \<in> set (collect_history_blocks L lines 0)"
  from collect_block_fields [OF b]
  show "timestamp_match (lines ! b_line_number b) = Some (b_timestamp_str b)"
    and "b_timestamp b = parse_timestamp L (now L (b_line_number b)) (b_timestamp_str b)"
    and "b_content b = join_lines (lines ! b_line_number b # continuation lines (b_line_number b))"
    by simp_all
next
  fix i assume "\<forall>l\<in>set (drop (i + 1) lines). \<not> re_match timestamp_pattern l"
  then show "continuation lines i = drop (i + 1) lines"
    by (simp add: continuation_def)
next
  fix i assume "i < length lines \<and> \<not> starts_block (lines ! i)"
  then show "collect_history_blocks L lines i = collect_history_blocks L lines (i + 1)"
    by (subst collect_history_blocks.simps)
       (auto simp: starts_block_def Let_def split: option.splits)
qed

text \<open>
  In \<open>segmenter_lines\<close> the marker without a timestamp in line 0 is passed over, line 3 ends
  the block of line 1, and the block of line 4 runs to the end.
\<close>

theorem segmenter_blocks_witness:
  "filter (\<lambda>i. starts_block (segmenter_lines ! i)) [0..<length segmenter_lines] = [1, 4]
   \<and> map b_line_number (collect_history_blocks sample_lib segmenter_lines 0) = [1, 4]
   \<and> map b_content (collect_history_blocks sample_lib segmenter_lines 0)
     = [segmenter_lines ! 1 @ newline # segmenter_lines ! 2,
        segmenter_lines ! 4 @ newline # segmenter_lines ! 5]"
proof -
  have f: "filter (\<lambda>i. starts_block (segmenter_lines ! i)) [0..<length segmenter_lines] = [1, 4]"
    by code_simp
  have c: "map b_content (collect_history_blocks sample_lib segmenter_lines 0)
     = [segmenter_lines ! 1 @ newline # segmenter_lines ! 2,
        segmenter_lines ! 4 @ newline # segmenter_lines ! 5]"
    by code_simp
  from segmenter_blocks [of sample_lib segmenter_lines] f
  have "map b_line_number (collect_history_blocks sample_lib segmenter_lines 0) = [1, 4]"
    by simp
  with f c show ?thesis by simp
qed

text \<open>
  Claim C7. For every string \<^verbatim>\<open>parse_timestamp\<close> returns an instant: the result of the
  first format on the whole string if there is one, else the result of the second format on
  the first 19 characters if there is one, else the reading of the clock.
\<close>

theorem parse_timestamp_fallbacks:
  "parse_timestamp L wall_clock timestamp_str =
     (if strptime L timestamp_str fmt_ms \<noteq> None then the (strptime L timestamp_str fmt_ms)
      else if strptime L (take 19 timestamp_str) fmt_s \<noteq> None
        then the (strptime L (take 19 timestamp_str) fmt_s)
      else wall_clock)"
  by (simp add: parse_timestamp_def split: option.splits)

text \<open>One string for each of the three cases.\<close>

theorem parse_timestamp_fallbacks_witness:
  "parse_timestamp sample_lib 60 ''2024-05-01 10:00:05,000'' = 5
   \<and> parse_timestamp sample_lib 60 ''2024-05-01 10:00:07'' = 7
   \<and> parse_timestamp sample_lib 60 ''yesterday'' = 60"
proof -
  have a: "strptime sample_lib ''2024-05-01 10:00:05,000'' fmt_ms = Some 5"
    and b: "strptime sample_lib ''2024-05-01 10:00:07'' fmt_ms = None"
      "strptime sample_lib (take 19 ''2024-05-01 10:00:07'') fmt_s = Some 7"
    and c: "strptime sample_lib ''yesterday'' fmt_ms = None"
      "strptime sample_lib (take 19 ''yesterday'') fmt_s = None"
    by code_simp+
  from parse_timestamp_fallbacks [of sample_lib 60 "''2024-05-01 10:00:05,000''"] a
  have 1: "parse_timestamp sample_lib 60 ''2024-05-01 10:00:05,000'' = 5" by simp
  from parse_timestamp_fallbacks [of sample_lib 60 "''2024-05-01 10:00:07''"] b
  have 2: "parse_timestamp sample_lib 60 ''2024-05-01 10:00:07'' = 7" by simp
  from parse_timestamp_fallbacks [of sample_lib 60 "''yesterday''"] c
  have 3: "parse_timestamp sample_lib 60 ''yesterday'' = 60" by simp
  from 1 2 3 show ?thesis by simp
qed

text \<open>
  Claim C8. In every conversation that \<^verbatim>\<open>analyze_logfile\<close> returns, \<open>message_count\<close> is the
  length of \<open>messages\<close>.
\<close>

theorem conversation_message_count:
  fixes L :: "('t::linorder) pylib"
  assumes "analyze_logfile L E content = Inr convs" and "(cid, c) \<in> set convs"
  shows "message_count c = length (messages c)"
proof -
  let ?Q = "\<lambda>f :: 't found_conversation. message_count (f_conversation f) = length (messages (f_conversation f))"
  have "\<exists>f. ?Q f \<and> c = f_conversation f"
  proof (rule analyze_logfile_all [where Q = ?Q, OF assms], intro allI impI)
    fix fs :: "'t found_conversation list" and b fs'
    assume pb: "process_block L E (sort_newest_first (collect_history_blocks L (split_lines content) 0)) fs b = Inr fs'"
    from process_block_cases [OF pb] show "\<forall>f\<in>set fs'. f \<in> set fs \<or> ?Q f"
    proof (elim disjE exE conjE)
      assume "fs' = fs"
      then show ?thesis by simp
    next
      fix data turns u us msgs
      assume bm: "build_messages L E (sort_newest_first (collect_history_blocks L (split_lines content) 0))
                    (b_timestamp b) turns 0 (u # us) = Inr msgs"
        and fs': "fs' = fs @
         [\<lparr>f_user_messages = u # us,
           f_conversation =
             \<lparr>chat_id = conversation_id L fs (b_timestamp b), first_message = u,
                start_time = b_timestamp b, message_count = length (u # us), messages = msgs\<rparr>,
           f_timestamp = b_timestamp b\<rparr>]"
      from build_messages_length [OF bm] fs' show ?thesis by simp
    qed
  qed
  then show ?thesis by auto
qed

text \<open>The conversation of \<open>log_three_snapshots\<close>.\<close>

theorem conversation_message_count_witness:
  "analyze_logfile sample_lib sample_extract log_three_snapshots
     = Inr [(''conversation_1'', three_snapshots_conversation)]
   \<and> message_count three_snapshots_conversation = length (messages three_snapshots_conversation)"
proof -
  note run = three_snapshots_run
  have "(''conversation_1'', three_snapshots_conversation)
      \<in> set [(''conversation_1'', three_snapshots_conversation)]" by simp
  from conversation_message_count [OF run this] run show ?thesis by simp
qed

text \<open>
  Claim C9. The documents of the message at index \<open>i\<close> of a returned conversation are
  extracted from the first block, in descending order of the timestamps, that decodes to
  \<open>i + 1\<close> user messages the last of which is the message; no segmented block with that
  property has a larger timestamp. When no block has it, the message has no documents.
\<close>

theorem context_documents_from_newest_match:
  fixes L :: "('t::linorder) pylib"
  assumes "analyze_logfile L E content = Inr convs" and "(cid, c) \<in> set convs"
    and "i < length (messages c)"
  shows "(case List.find (is_context_block L (i + 1) (user_message (messages c ! i)))
                (sort_newest_first (collect_history_blocks L (split_lines content) 0)) of
            None \<Rightarrow> context_documents (messages c ! i) = []
          | Some b \<Rightarrow>
              context_documents (messages c ! i) = E (b_content b) \<and>
              (\<forall>b'\<in>set (collect_history_blocks L (split_lines content) 0).
                 is_context_block L (i + 1) (user_message (messages c ! i)) b'
                 \<longrightarrow> b_timestamp b' \<le> b_timestamp b))"
proof -
  let ?hb = "sort_newest_first (collect_history_blocks L (split_lines content) 0)"
  let ?u = "user_message (messages c ! i)"
  from analyze_logfile_conversation [OF assms(1,2)] obtain ts turns ums where
    bm: "build_messages L E ?hb ts turns 0 ums = Inr (messages c)"
    by auto
  from build_messages_context [OF bm assms(3)]
  have "find_context_docs L E ?hb (i + 1) ?u = Inr (context_documents (messages c ! i))" by simp
  from find_context_docs_find [OF this]
  have docs: "context_documents (messages c ! i) =
      (case List.find (is_context_block L (i + 1) ?u) ?hb of None \<Rightarrow> [] | Some b \<Rightarrow> E (b_content b))" .
  show ?thesis
  proof (cases "List.find (is_context_block L (i + 1) ?u) ?hb")
    case None
    with docs show ?thesis by simp
  next
    case (Some b)
    have "b_timestamp b' \<le> b_timestamp b"
      if "b' \<in> set (collect_history_blocks L (split_lines content) 0)"
        and "is_context_block L (i + 1) ?u b'" for b'
    proof (rule find_newest [OF Some sort_newest_first_descending _ that(2)])
      from that(1) show "b' \<in> set ?hb" by (simp add: sort_newest_first_def)
    qed
    with docs Some show ?thesis by simp
  qed
qed

text \<open>
  For the second message of \<open>log_three_snapshots\<close> two blocks qualify; the documents come
  from the newer one.
\<close>

theorem context_documents_witness:
  "List.find (is_context_block sample_lib 2 ''bye'')
       [block_hi_bye_at_9, block_hi_bye_at_5, block_hi_at_0] = Some block_hi_bye_at_9
   \<and> is_context_block sample_lib 2 ''bye'' block_hi_bye_at_5
   \<and> context_documents (messages three_snapshots_conversation ! 1)
      = sample_extract (b_content block_hi_bye_at_9)
   \<and> b_timestamp block_hi_bye_at_5 \<le> b_timestamp block_hi_bye_at_9"
proof -
  note run = three_snapshots_run
  have mem: "(''conversation_1'', three_snapshots_conversation)
      \<in> set [(''conversation_1'', three_snapshots_conversation)]" by simp
  have len: "1 < length (messages three_snapshots_conversation)"
    and u: "user_message (messages three_snapshots_conversation ! 1) = ''bye''"
    by (simp_all add: three_snapshots_conversation_def)
  have f: "List.find (is_context_block sample_lib 2 ''bye'')
       [block_hi_bye_at_9, block_hi_bye_at_5, block_hi_at_0] = Some block_hi_bye_at_9"
    by code_simp
  have m: "is_context_block sample_lib 2 ''bye'' block_hi_bye_at_5" by code_simp
  have two: "(1::nat) + 1 = 2" by simp
  note inst = context_documents_from_newest_match [OF run mem len,
      unfolded three_snapshots_blocks three_snapshots_sorted u two f option.case]
  from inst have docs: "context_documents (messages three_snapshots_conversation ! 1)
      = sample_extract (b_content block_hi_bye_at_9)" by (rule conjunct1)
  from inst have "\<forall>b'\<in>set [block_hi_at_0, block_hi_bye_at_5, block_hi_bye_at_9].
          is_context_block sample_lib 2 ''bye'' b'
          \<longrightarrow> b_timestamp b' \<le> b_timestamp block_hi_bye_at_9" by (rule conjunct2)
  with m have le: "b_timestamp block_hi_bye_at_5 \<le> b_timestamp block_hi_bye_at_9" by simp
  from f m docs le show ?thesis by (intro conjI)
qed

text \<open>
  Claim C10. A block that decodes to no user message leaves the claimed conversations as
  they are. Every returned conversation has at least one message, and its \<open>first_message\<close> is
  its first user message, which is the first user message of a segmented block.
\<close>

theorem no_user_turn_no_conversation:
  fixes L :: "('t::linorder) pylib"
  shows "(block_user_messages L (b_content b) = Some (Inr []) \<longrightarrow>
            process_block L E bs found b = Inr found)
    \<and> (analyze_logfile L E content = Inr convs \<and> (cid, c) \<in> set convs \<longrightarrow>
          1 \<le> message_count c \<and> messages c \<noteq> []
          \<and> first_message c = user_message (hd (messages c))
          \<and> (\<exists>b ums. b \<in> set (collect_history_blocks L (split_lines content) 0)
                \<and> block_user_messages L (b_content b) = Some (Inr ums) \<and> ums \<noteq> []
                \<and> first_message c = hd ums \<and> message_count c = length ums))"
proof (intro conjI impI)
  assume "block_user_messages L (b_content b) = Some (Inr [])"
  then show "process_block L E bs found b = Inr found" by (rule process_block_empty)
next
  assume a: "analyze_logfile L E content = Inr convs \<and> (cid, c) \<in> set convs"
  then obtain b data turns ums msgs fs where
    b: "b \<in> set (collect_history_blocks L (split_lines content) 0)" and
    dec: "decode_block L (b_content b) = Some data" "iterate data = Inr turns"
      "user_messages_of turns = Inr ums" and
    ne: "ums \<noteq> []" and
    bm: "build_messages L E (sort_newest_first (collect_history_blocks L (split_lines content) 0))
         (b_timestamp b) turns 0 ums = Inr msgs" and
    c: "c = \<lparr>chat_id = conversation_id L fs (b_timestamp b), first_message = hd ums,
            start_time = b_timestamp b, message_count = length ums, messages = msgs\<rparr>"
    using analyze_logfile_conversation [of L E content convs cid c] by blast
  from build_messages_user_message [OF bm] have um: "map user_message msgs = ums" .
  with ne have msgs: "msgs \<noteq> []" by auto
  from ne c show "1 \<le> message_count c" by (cases ums) auto
  from msgs c show "messages c \<noteq> []" by simp
  from um msgs c show "first_message c = user_message (hd (messages c))"
    by (cases msgs) auto
  from dec have "block_user_messages L (b_content b) = Some (Inr ums)"
    by (simp add: block_user_messages_def)
  with b ne c show "\<exists>b ums. b \<in> set (collect_history_blocks L (split_lines content) 0)
                \<and> block_user_messages L (b_content b) = Some (Inr ums) \<and> ums \<noteq> []
                \<and> first_message c = hd ums \<and> message_count c = length ums"
    by (intro exI [of _ b] exI [of _ ums]) simp
qed

text \<open>A block with a system turn only, and the conversation of \<open>log_three_snapshots\<close>.\<close>

theorem no_user_turn_witness:
  "block_user_messages sample_lib (b_content block_system_at_9) = Some (Inr [])
   \<and> process_block sample_lib sample_extract [block_system_at_9] [] block_system_at_9 = Inr []
   \<and> analyze_logfile sample_lib sample_extract log_three_snapshots
      = Inr [(''conversation_1'', three_snapshots_conversation)]
   \<and> 1 \<le> message_count three_snapshots_conversation
   \<and> first_message three_snapshots_conversation
      = user_message (hd (messages three_snapshots_conversation))"
proof -
  note run = three_snapshots_run
  have u: "block_user_messages sample_lib (b_content block_system_at_9) = Some (Inr [])"
    by code_simp
  note inst = no_user_turn_no_conversation [of sample_lib block_system_at_9 sample_extract
      "[block_system_at_9]" "[]" log_three_snapshots
      "[(''conversation_1'', three_snapshots_conversation)]" "''conversation_1''"
      three_snapshots_conversation]
  from inst u have "process_block sample_lib sample_extract [block_system_at_9] []
      block_system_at_9 = Inr []"
    by simp
  moreover from inst run have "1 \<le> message_count three_snapshots_conversation
    \<and> first_message three_snapshots_conversation
      = user_message (hd (messages three_snapshots_conversation))"
    by simp
  ultimately show ?thesis using u run by simp
qed

end
